theory Spec2Isabelle
  imports Main "HOL-Library.Word" "HOL-Library.Multiset"
begin

section \<open>Leviathan kernel: a shallow embedding of the execution substrate\<close>

text \<open>
  The development follows \<^verbatim>\<open>Leviathan_Kernel.cpp\<close>. Every member function that
  runs under a lock (\<^verbatim>\<open>SpinGuard\<close>, \<^verbatim>\<open>std::unique_lock\<close>) is one
  atomic transformer of the state it guards, so the bodies are modelled sequentially.
  \<^verbatim>\<open>submit_task\<close> and one turn of a worker call several such functions; each of
  the two is modelled as it runs when no other thread interleaves with it.
  Values the environment supplies (clock readings, thread ids, the random packet id,
  addresses handed out by the C++ allocator) are explicit arguments.

  Naming: a C++ member keeps its name, without the trailing underscore of private
  members (\<^verbatim>\<open>buffer_\<close> is \<open>buffer\<close>). Members called \<^verbatim>\<open>id\<close> and \<^verbatim>\<open>size\<close> would
  hide HOL constants and are written \<open>tc_id\<close>, \<open>pkt_id\<close> and \<open>pkt_size\<close>.
\<close>

subsection \<open>Shared primitives\<close>

text \<open>
  Addresses. For the raw pointers of the slab allocator \<open>0\<close> is \<^verbatim>\<open>nullptr\<close>.
  A non-null \<^verbatim>\<open>std::shared_ptr<TaskContext>\<close> is the address of the object it
  keeps alive; where the source can produce a null one, the model has an
  \<open>addr option\<close> with \<open>None\<close> for \<^verbatim>\<open>nullptr\<close>.
\<close>

type_synonym addr = nat

text \<open>
  Ways in which an operation leaves the defined behaviour of the program:
  dereferencing a null \<^verbatim>\<open>shared_ptr\<close>, and an exception that escapes a worker
  thread, which makes the runtime call \<^verbatim>\<open>std::terminate\<close>.
\<close>

datatype fault = Null_dereference | Std_terminate

text \<open>
  \<^verbatim>\<open>std::vformat("{}", n)\<close> for an unsigned integer: its decimal digits.
\<close>

definition digit_char :: "nat \<Rightarrow> char" where
  "digit_char d = ''0123456789'' ! d"

function to_decimal :: "nat \<Rightarrow> string" where
  "to_decimal n =
     (if n < 10 then [digit_char n]
      else to_decimal (n div 10) @ [digit_char (n mod 10)])"
  by pat_completeness auto
termination
  by (relation "measure (\<lambda>n. n)") auto

subsection \<open>Section 2: KernelLogger\<close>

datatype LogLevel = TRACE | DEBUG | INFO | WARN | ERROR | CRITICAL

record LogEntry =
  timestamp :: int
  level :: LogLevel
  tid :: nat
  message :: string

text \<open>
  The logger's state is its \<^verbatim>\<open>std::deque<LogEntry> buffer_\<close>, oldest entry first.
  The line written to \<^verbatim>\<open>std::cout\<close> for levels from INFO upwards does not touch
  the buffer and is not part of the state.
\<close>

type_synonym KernelLogger = "LogEntry list"

definition max_buffer_size :: nat where
  "max_buffer_size = 10000"

text \<open>
  The \<^verbatim>\<open>try { msg = std::vformat(...) } catch (...) { msg = "LOG FORMAT ERROR"; }\<close>
  block. The argument is what \<^verbatim>\<open>std::vformat\<close> did: \<open>Some m\<close> when it returned
  \<open>m\<close>, \<open>None\<close> when it threw.
\<close>

definition format_or_diagnostic :: "string option \<Rightarrow> string" where
  "format_or_diagnostic formatted =
     (case formatted of Some m \<Rightarrow> m | None \<Rightarrow> ''LOG FORMAT ERROR'')"

text \<open>
  \<^verbatim>\<open>KernelLogger::log\<close>: \<open>now\<close> is \<^verbatim>\<open>Clock::now()\<close>, \<open>thr\<close> is
  \<^verbatim>\<open>std::this_thread::get_id()\<close>. \<^verbatim>\<open>pop_front\<close> runs only on a buffer of
  at least 10000 entries, so it never meets an empty deque.
\<close>

definition log :: "int \<Rightarrow> nat \<Rightarrow> LogLevel \<Rightarrow> string option \<Rightarrow> KernelLogger \<Rightarrow> KernelLogger" where
  "log now thr lvl formatted buffer =
     (let msg = format_or_diagnostic formatted;
          b1 = (if length buffer \<ge> max_buffer_size then tl buffer else buffer)
      in b1 @ [\<lparr>timestamp = now, level = lvl, tid = thr, message = msg\<rparr>])"

text \<open>A sequence of \<^verbatim>\<open>log\<close> calls, each with its clock reading, thread, level and
  formatting result.\<close>

type_synonym log_call = "int \<times> nat \<times> LogLevel \<times> string option"

fun log_all :: "log_call list \<Rightarrow> KernelLogger \<Rightarrow> KernelLogger" where
  "log_all [] b = b"
| "log_all ((now, thr, lvl, formatted) # cs) b = log_all cs (log now thr lvl formatted b)"

text \<open>The entry a call appends.\<close>

fun entry_of :: "log_call \<Rightarrow> LogEntry" where
  "entry_of (now, thr, lvl, formatted) =
     \<lparr>timestamp = now, level = lvl, tid = thr, message = format_or_diagnostic formatted\<rparr>"

subsection \<open>Section 3: SlabAllocator\<close>

text \<open>
  The free list is threaded through the memory it manages: a free slot holds, in its
  first word, the address of the slot after it (\<^verbatim>\<open>Block::next\<close>). \<open>block_next\<close>
  is that word of memory for every address. \<open>pages\<close> lists the start addresses of
  the pages in \<^verbatim>\<open>pages_\<close>; \<open>allocated_objects\<close> is the
  \<^verbatim>\<open>std::atomic<size_t>\<close> counter, 64 bits wide, so \<^verbatim>\<open>fetch_add\<close> and
  \<^verbatim>\<open>fetch_sub\<close> wrap. Reading \<open>block_next\<close> as one independent word per
  address is exact for slot addresses when a slot is at least as large as a
  \<^verbatim>\<open>Block\<close>, that is a pointer of 8 bytes.
\<close>

definition sizeof_Block :: nat where
  "sizeof_Block = 8"

record SlabAllocator =
  free_list :: addr
  block_next :: "addr \<Rightarrow> addr"
  pages :: "addr list"
  allocated_objects :: "64 word"

text \<open>
  \<^verbatim>\<open>expand\<close>, for the template parameters \<open>ObjectSize\<close> and \<open>BlockSize\<close>.
  \<open>start\<close> is the address of the page \<^verbatim>\<open>std::make_unique<Page>\<close> returned.
  The \<^verbatim>\<open>for\<close> loop links slot \<open>i\<close> to slot \<open>i + 1\<close> for
  \<open>i < capacity - 1\<close>; the last slot is linked to the old head. The C++ computes
  \<open>capacity - 1\<close> on \<^verbatim>\<open>size_t\<close>: the model agrees with it when the block
  holds at least one slot, \<open>sizeof_Block \<le> ObjectSize \<le> BlockSize\<close>, which the
  theorems that reach \<^verbatim>\<open>expand\<close> assume.
\<close>

definition link_slots :: "nat \<Rightarrow> addr \<Rightarrow> nat \<Rightarrow> (addr \<Rightarrow> addr) \<Rightarrow> (addr \<Rightarrow> addr)" where
  "link_slots ObjectSize start capacity m =
     fold (\<lambda>i m'. m'(start + i * ObjectSize := start + (i + 1) * ObjectSize))
          [0..<capacity - 1] m"

definition expand :: "nat \<Rightarrow> nat \<Rightarrow> addr \<Rightarrow> SlabAllocator \<Rightarrow> SlabAllocator" where
  "expand ObjectSize BlockSize start s =
     (let capacity = BlockSize div ObjectSize;
          m1 = link_slots ObjectSize start capacity (block_next s);
          last_slot = start + (capacity - 1) * ObjectSize;
          m2 = m1(last_slot := free_list s)
      in s\<lparr>block_next := m2, free_list := start, pages := pages s @ [start]\<rparr>)"

text \<open>
  \<^verbatim>\<open>allocate\<close>: \<open>fresh\<close> is the page the allocator would get if it had to
  expand; it is used only when the free list is empty.
\<close>

definition allocate :: "nat \<Rightarrow> nat \<Rightarrow> addr \<Rightarrow> SlabAllocator \<Rightarrow> addr \<times> SlabAllocator" where
  "allocate ObjectSize BlockSize fresh s =
     (let s1 = (if free_list s = 0 then expand ObjectSize BlockSize fresh s else s);
          block = free_list s1
      in (block, s1\<lparr>free_list := block_next s1 block,
                     allocated_objects := allocated_objects s1 + 1\<rparr>))"

definition deallocate :: "addr \<Rightarrow> SlabAllocator \<Rightarrow> SlabAllocator" where
  "deallocate ptr s =
     (if ptr = 0 then s
      else s\<lparr>block_next := (block_next s)(ptr := free_list s),
             free_list := ptr,
             allocated_objects := allocated_objects s - 1\<rparr>)"

text \<open>
  The constructor \<^verbatim>\<open>SlabAllocator() { expand(); }\<close> on top of the member
  initialisers: an empty free list, no pages, a counter of 0. \<open>mem\<close> is the content
  of memory before.
\<close>

definition SlabAllocator_ctor :: "nat \<Rightarrow> nat \<Rightarrow> addr \<Rightarrow> (addr \<Rightarrow> addr) \<Rightarrow> SlabAllocator" where
  "SlabAllocator_ctor ObjectSize BlockSize start mem =
     expand ObjectSize BlockSize start
       \<lparr>free_list = 0, block_next = mem, pages = [], allocated_objects = 0\<rparr>"

definition stats_used :: "SlabAllocator \<Rightarrow> 64 word" where
  "stats_used s = allocated_objects s"

text \<open>
  A run of allocations, one fresh page address per call, returning the pointers in
  the order they were handed out; and a run of deallocations.
\<close>

fun allocate_all :: "nat \<Rightarrow> nat \<Rightarrow> addr list \<Rightarrow> SlabAllocator \<Rightarrow> addr list \<times> SlabAllocator" where
  "allocate_all ObjectSize BlockSize [] s = ([], s)"
| "allocate_all ObjectSize BlockSize (fresh # rest) s =
     (case allocate ObjectSize BlockSize fresh s of
        (p, s1) \<Rightarrow> (case allocate_all ObjectSize BlockSize rest s1 of
                      (ps, s2) \<Rightarrow> (p # ps, s2)))"

fun deallocate_all :: "addr list \<Rightarrow> SlabAllocator \<Rightarrow> SlabAllocator" where
  "deallocate_all [] s = s"
| "deallocate_all (p # ps) s = deallocate_all ps (deallocate p s)"

subsection \<open>Section 6: NetworkInterface\<close>

record Packet =
  pkt_id :: "64 word"
  src_ip :: "32 word"
  dest_ip :: "32 word"
  src_port :: "16 word"
  dest_port :: "16 word"
  payload :: "8 word list"
  pkt_size :: nat

definition LEVIATHAN_NET_RING_SIZE :: nat where
  "LEVIATHAN_NET_RING_SIZE = 2048"

text \<open>\<^verbatim>\<open>sizeof(p.payload)\<close> for \<^verbatim>\<open>uint8_t payload[128]\<close>.\<close>

definition sizeof_payload :: nat where
  "sizeof_payload = 128"

text \<open>
  \<open>rx_ring\<close> is the \<^verbatim>\<open>std::array<Packet, 2048>\<close>, read and written only at
  indices below 2048. \<open>rx_head\<close> and \<open>rx_tail\<close> are \<^verbatim>\<open>size_t\<close>; since 2048
  divides \<open>2 ^ 64\<close>, \<open>(rx_head + 1) mod 2048\<close> on naturals is the value the C++
  computes even where \<open>rx_head + 1\<close> would wrap.
\<close>

record NetworkInterface =
  rx_ring :: "nat \<Rightarrow> Packet"
  rx_head :: nat
  rx_tail :: nat

text \<open>Which branch \<^verbatim>\<open>receive_packet\<close> took: the early return or the store.\<close>

datatype rx_outcome = Dropped | Stored

text \<open>
  \<^verbatim>\<open>std::memcpy(p.payload, data.data(), p.size)\<close> overwrites the first
  \<open>n\<close> bytes of the slot's buffer and leaves the rest as it was.
\<close>

definition memcpy_payload :: "8 word list \<Rightarrow> 8 word list \<Rightarrow> nat \<Rightarrow> 8 word list" where
  "memcpy_payload dst src n = take n src @ drop n dst"

text \<open>
  \<^verbatim>\<open>receive_packet\<close>: \<open>rid\<close> is the value of \<^verbatim>\<open>XorShift64::next()\<close>,
  \<open>now\<close> and \<open>thr\<close> the clock and thread of the one \<^verbatim>\<open>log\<close> call the
  function makes on either path.
\<close>

definition receive_packet ::
  "64 word \<Rightarrow> int \<Rightarrow> nat \<Rightarrow> 8 word list \<Rightarrow> NetworkInterface \<times> KernelLogger
     \<Rightarrow> rx_outcome \<times> NetworkInterface \<times> KernelLogger" where
  "receive_packet rid now thr data st =
     (case st of (ni, lg) \<Rightarrow>
        let next_head = (rx_head ni + 1) mod LEVIATHAN_NET_RING_SIZE in
        if next_head = rx_tail ni then
          (Dropped, ni,
           log now thr WARN (Some ''[NET] RX Ring Buffer Overflow! Dropping packet.'') lg)
        else
          let p = rx_ring ni (rx_head ni);
              n = min (length data) sizeof_payload;
              p1 = p\<lparr>pkt_id := rid, pkt_size := n,
                     payload := memcpy_payload (payload p) data n\<rparr>
          in (Stored,
              ni\<lparr>rx_ring := (rx_ring ni)(rx_head ni := p1), rx_head := next_head\<rparr>,
              log now thr TRACE
                (Some (''[NET] Received Packet ID:'' @ to_decimal (unat rid))) lg))"

definition pop_packet :: "NetworkInterface \<Rightarrow> Packet option \<times> NetworkInterface" where
  "pop_packet ni =
     (if rx_head ni = rx_tail ni then (None, ni)
      else (Some (rx_ring ni (rx_tail ni)),
            ni\<lparr>rx_tail := (rx_tail ni + 1) mod LEVIATHAN_NET_RING_SIZE\<rparr>))"

text \<open>The queue depth \<^verbatim>\<open>stats\<close> computes and logs.\<close>

definition depth :: "NetworkInterface \<Rightarrow> nat" where
  "depth ni =
     (if rx_head ni \<ge> rx_tail ni then rx_head ni - rx_tail ni
      else LEVIATHAN_NET_RING_SIZE - rx_tail ni + rx_head ni)"

text \<open>
  A run of \<^verbatim>\<open>receive_packet\<close> calls with no \<^verbatim>\<open>pop_packet\<close> between them;
  each call has its random id, clock, thread and data. The result lists the outcomes
  in call order.
\<close>

type_synonym rx_call = "64 word \<times> int \<times> nat \<times> 8 word list"

fun receive_all ::
  "rx_call list \<Rightarrow> NetworkInterface \<times> KernelLogger
     \<Rightarrow> rx_outcome list \<times> NetworkInterface \<times> KernelLogger" where
  "receive_all [] st = ([], st)"
| "receive_all ((rid, now, thr, data) # cs) st =
     (case receive_packet rid now thr data st of
        (out, st1) \<Rightarrow> (case receive_all cs st1 of (outs, st2) \<Rightarrow> (out # outs, st2)))"

definition stores :: "rx_outcome list \<Rightarrow> nat" where
  "stores outs = length (filter (\<lambda>out. out = Stored) outs)"

definition drops :: "rx_outcome list \<Rightarrow> nat" where
  "drops outs = length (filter (\<lambda>out. out = Dropped) outs)"

subsection \<open>Section 7: TaskContext, TaskGraph, MLFQScheduler\<close>

type_synonym TaskID = "64 word"

datatype TaskState = PENDING | READY | RUNNING | COMPLETED | FAILED | BLOCKED

datatype Priority = LOW | NORMAL | HIGH | REALTIME

text \<open>
  A work unit is a \<^verbatim>\<open>std::function<void()>\<close>. The kernel never looks inside it;
  what the worker can observe is how control leaves the call: it returns, it throws
  an exception derived from \<^verbatim>\<open>std::exception\<close> (with its \<^verbatim>\<open>what()\<close> text), or
  it throws a value of any other type. Effects of the work unit on kernel structures
  are outside the model.
\<close>

datatype Work = Returns | Throws_exception string | Throws_other

text \<open>
  \<^verbatim>\<open>struct TaskContext\<close>. The \<^verbatim>\<open>registers\<close> array is never initialised, read
  or written and is left out. \<open>unsatisfied_deps\<close> is the
  \<^verbatim>\<open>std::atomic<uint32_t>\<close>.
\<close>

record TaskContext =
  tc_id :: TaskID
  priority :: Priority
  state :: TaskState
  work :: Work
  dependencies :: "TaskID list"
  unsatisfied_deps :: "32 word"
  dependents :: "TaskID list"
  created_at :: int
  cpu_time_ns :: "64 word"

text \<open>The constructor \<^verbatim>\<open>TaskContext(i, p, w)\<close>; \<open>now\<close> is \<^verbatim>\<open>Clock::now()\<close>.\<close>

definition TaskContext_ctor :: "TaskID \<Rightarrow> Priority \<Rightarrow> Work \<Rightarrow> int \<Rightarrow> TaskContext" where
  "TaskContext_ctor i p w now =
     \<lparr>tc_id = i, priority = p, state = PENDING, work = w, dependencies = [],
      unsatisfied_deps = 0, dependents = [], created_at = now, cpu_time_ns = 0\<rparr>"

text \<open>
  Task contexts are shared: the graph, the scheduler queues and the running worker
  hold \<^verbatim>\<open>shared_ptr\<close>s to the same object. The store maps an address to the
  object there; the graph and the queues hold addresses.
\<close>

type_synonym heap = "addr \<Rightarrow> TaskContext"

record TaskGraph =
  tasks :: "TaskID \<Rightarrow> addr option"

text \<open>\<^verbatim>\<open>add_task\<close>: the single statement \<^verbatim>\<open>tasks_[t->id] = t\<close>.\<close>

definition add_task :: "heap \<Rightarrow> addr \<Rightarrow> TaskGraph \<Rightarrow> TaskGraph" where
  "add_task h t g = g\<lparr>tasks := (tasks g)(tc_id (h t) \<mapsto> t)\<rparr>"

text \<open>
  \<^verbatim>\<open>add_dependency\<close>: four statements under the \<^verbatim>\<open>contains\<close> test, in the
  source's order, each through a fresh lookup (so parent and child may be the same
  object). The registry itself is not changed.
\<close>

definition add_dependency :: "TaskID \<Rightarrow> TaskID \<Rightarrow> TaskGraph \<Rightarrow> heap \<Rightarrow> heap" where
  "add_dependency parent child g h =
     (case (tasks g parent, tasks g child) of
        (Some p, Some c) \<Rightarrow>
          let h1 = h(p := (h p)\<lparr>dependents := dependents (h p) @ [child]\<rparr>);
              h2 = h1(c := (h1 c)\<lparr>dependencies := dependencies (h1 c) @ [parent]\<rparr>);
              h3 = h2(c := (h2 c)\<lparr>unsatisfied_deps := unsatisfied_deps (h2 c) + 1\<rparr>)
          in h3(c := (h3 c)\<lparr>state := BLOCKED\<rparr>)
      | _ \<Rightarrow> h)"

text \<open>
  The loop of \<^verbatim>\<open>complete_task\<close> over the dependents. \<^verbatim>\<open>tasks_[dep_id]\<close> on
  an id that is not registered yields a null pointer, which the next line
  dereferences. \<^verbatim>\<open>fetch_sub(1)\<close> returns the old counter and stores the old
  counter minus one, modulo \<open>2 ^ 32\<close>.
\<close>

fun release ::
  "(TaskID \<Rightarrow> addr option) \<Rightarrow> TaskID list \<Rightarrow> heap \<times> addr list \<Rightarrow> fault + heap \<times> addr list" where
  "release reg [] (h, unlocked) = Inr (h, unlocked)"
| "release reg (dep_id # rest) (h, unlocked) =
     (case reg dep_id of
        None \<Rightarrow> Inl Null_dereference
      | Some dep \<Rightarrow>
          let old = unsatisfied_deps (h dep);
              h1 = h(dep := (h dep)\<lparr>unsatisfied_deps := old - 1\<rparr>)
          in if old = 1
             then release reg rest (h1(dep := (h1 dep)\<lparr>state := READY\<rparr>), unlocked @ [dep])
             else release reg rest (h1, unlocked))"

text \<open>
  \<^verbatim>\<open>complete_task\<close> returns the vector \<^verbatim>\<open>unlocked\<close>; the store is returned
  with it. The registry is only read.
\<close>

definition complete_task :: "TaskID \<Rightarrow> TaskGraph \<Rightarrow> heap \<Rightarrow> fault + heap \<times> addr list" where
  "complete_task task_id g h =
     (case tasks g task_id of
        None \<Rightarrow> Inr (h, [])
      | Some t \<Rightarrow> release (tasks g) (dependents (h t)) (h, []))"

text \<open>
  \<^verbatim>\<open>std::array<Queue, 4> queues_\<close>, each queue a deque with its front first.
  Only indices 0 to 3 are ever read or written.
\<close>

record MLFQScheduler =
  queues :: "nat \<Rightarrow> addr list"

text \<open>The \<^verbatim>\<open>switch\<close> of \<^verbatim>\<open>submit\<close>.\<close>

fun priority_idx :: "Priority \<Rightarrow> nat" where
  "priority_idx REALTIME = 0"
| "priority_idx HIGH = 1"
| "priority_idx NORMAL = 2"
| "priority_idx LOW = 3"

definition submit :: "heap \<Rightarrow> addr \<Rightarrow> MLFQScheduler \<Rightarrow> MLFQScheduler" where
  "submit h task s =
     (let idx = priority_idx (priority (h task))
      in s\<lparr>queues := (queues s)(idx := queues s idx @ [task])\<rparr>)"

text \<open>
  \<^verbatim>\<open>get_next\<close>: the \<^verbatim>\<open>for\<close> loop over the queue indices still to probe, and
  the function itself, which probes 0, 1, 2, 3. \<open>None\<close> is the \<^verbatim>\<open>nullptr\<close>
  returned after the loop.
\<close>

fun get_next_from :: "nat list \<Rightarrow> MLFQScheduler \<Rightarrow> addr option \<times> MLFQScheduler" where
  "get_next_from [] s = (None, s)"
| "get_next_from (i # rest) s =
     (case queues s i of
        [] \<Rightarrow> get_next_from rest s
      | t # q' \<Rightarrow> (Some t, s\<lparr>queues := (queues s)(i := q')\<rparr>))"

definition get_next :: "MLFQScheduler \<Rightarrow> addr option \<times> MLFQScheduler" where
  "get_next s = get_next_from [0, 1, 2, 3] s"

definition requeue :: "heap \<Rightarrow> addr \<Rightarrow> MLFQScheduler \<Rightarrow> MLFQScheduler" where
  "requeue h t s = submit h t s"

text \<open>Submitting a list of tasks in order, and calling \<^verbatim>\<open>get_next\<close> \<open>n\<close> times.\<close>

fun submit_all :: "heap \<Rightarrow> addr list \<Rightarrow> MLFQScheduler \<Rightarrow> MLFQScheduler" where
  "submit_all h [] s = s"
| "submit_all h (t # ts) s = submit_all h ts (submit h t s)"

fun get_next_n :: "nat \<Rightarrow> MLFQScheduler \<Rightarrow> addr option list \<times> MLFQScheduler" where
  "get_next_n 0 s = ([], s)"
| "get_next_n (Suc n) s =
     (case get_next s of
        (r, s1) \<Rightarrow> (case get_next_n n s1 of (rs, s2) \<Rightarrow> (r # rs, s2)))"

definition empty_scheduler :: MLFQScheduler where
  "empty_scheduler = \<lparr>queues = (\<lambda>i. [])\<rparr>"

text \<open>
  The order in which repeated \<^verbatim>\<open>get_next\<close> calls would hand out what is queued
  now, and the part of a submission sequence that goes to band \<open>b\<close>.
\<close>

definition dispatch_order :: "MLFQScheduler \<Rightarrow> addr list" where
  "dispatch_order s = queues s 0 @ queues s 1 @ queues s 2 @ queues s 3"

definition band :: "heap \<Rightarrow> nat \<Rightarrow> addr list \<Rightarrow> addr list" where
  "band h b ts = filter (\<lambda>t. priority_idx (priority (h t)) = b) ts"

subsection \<open>Sections 8 and 11: ExecutionEngine and LeviathanKernel\<close>

text \<open>
  The members of \<^verbatim>\<open>LeviathanKernel\<close> that task submission and the workers use:
  \<^verbatim>\<open>graph_\<close>, \<^verbatim>\<open>scheduler_\<close> and \<^verbatim>\<open>id_gen_\<close>, together with the store of
  task contexts and the process-wide \<^verbatim>\<open>KernelLogger\<close>. The engine's
  \<^verbatim>\<open>sched_\<close> and \<^verbatim>\<open>graph_\<close> are references to the same two members.
\<close>

record LeviathanKernel =
  heap :: heap
  graph :: TaskGraph
  scheduler :: MLFQScheduler
  id_gen :: TaskID
  logger :: KernelLogger

text \<open>
  One turn of the \<^verbatim>\<open>while (running_)\<close> loop of \<^verbatim>\<open>worker_loop\<close>, in
  parts. \<open>try_work\<close> is the \<^verbatim>\<open>try\<close> block with its handler;
  \<open>worker_run_task\<close> is the code from \<^verbatim>\<open>task->state = RUNNING\<close> to the update
  of \<^verbatim>\<open>cpu_time_ns\<close>: \<open>t0\<close> and \<open>t1\<close> are the two clock readings, \<open>now\<close>
  and \<open>thr\<close> the clock and thread of the \<^verbatim>\<open>LOG_ERR\<close> call. The handler is
  \<^verbatim>\<open>catch (const std::exception& e)\<close>; a thrown value of another type leaves
  \<^verbatim>\<open>worker_loop\<close> and the thread's start function, so the runtime calls
  \<^verbatim>\<open>std::terminate\<close>. \<^verbatim>\<open>(t1 - t0).count()\<close> is a signed 64-bit tick count,
  converted to \<^verbatim>\<open>uint64_t\<close> by the compound assignment.
\<close>

definition try_work :: "int \<Rightarrow> nat \<Rightarrow> addr \<Rightarrow> heap \<times> KernelLogger \<Rightarrow> fault + heap \<times> KernelLogger" where
  "try_work now thr task st =
     (case st of (h, lg) \<Rightarrow>
        (case work (h task) of
           Returns \<Rightarrow> Inr (h(task := (h task)\<lparr>state := COMPLETED\<rparr>), lg)
         | Throws_exception what \<Rightarrow>
             Inr (h(task := (h task)\<lparr>state := FAILED\<rparr>),
                  log now thr ERROR
                    (Some (''Task '' @ to_decimal (unat (tc_id (h task)))
                           @ '' Failed: '' @ what)) lg)
         | Throws_other \<Rightarrow> Inl Std_terminate))"

definition worker_run_task ::
  "int \<Rightarrow> int \<Rightarrow> int \<Rightarrow> nat \<Rightarrow> addr \<Rightarrow> heap \<times> KernelLogger \<Rightarrow> fault + heap \<times> KernelLogger" where
  "worker_run_task t0 t1 now thr task st =
     (case st of (h, lg) \<Rightarrow>
        (case try_work now thr task (h(task := (h task)\<lparr>state := RUNNING\<rparr>), lg) of
           Inl f \<Rightarrow> Inl f
         | Inr (h2, lg2) \<Rightarrow>
             Inr (h2(task := (h2 task)\<lparr>cpu_time_ns :=
                        cpu_time_ns (h2 task) + word_of_int (t1 - t0)\<rparr>), lg2)))"

text \<open>
  The whole turn. With an empty scheduler the worker sleeps and tries again: nothing
  changes. Otherwise the task runs, \<^verbatim>\<open>complete_task\<close> is called on its id, and
  each context it returns is submitted.
\<close>

definition worker_iteration ::
  "int \<Rightarrow> int \<Rightarrow> int \<Rightarrow> nat \<Rightarrow> LeviathanKernel \<Rightarrow> fault + LeviathanKernel" where
  "worker_iteration t0 t1 now thr k =
     (case get_next (scheduler k) of
        (None, s1) \<Rightarrow> Inr (k\<lparr>scheduler := s1\<rparr>)
      | (Some task, s1) \<Rightarrow>
          (case worker_run_task t0 t1 now thr task (heap k, logger k) of
             Inl f \<Rightarrow> Inl f
           | Inr (h1, lg1) \<Rightarrow>
               (case complete_task (tc_id (h1 task)) (graph k) h1 of
                  Inl f \<Rightarrow> Inl f
                | Inr (h2, new_ready) \<Rightarrow>
                    Inr (k\<lparr>heap := h2, scheduler := submit_all h2 new_ready s1,
                           logger := lg1\<rparr>))))"

text \<open>
  \<^verbatim>\<open>LeviathanKernel::submit_task(p, work)\<close>. \<open>a\<close> is the address of the object
  \<^verbatim>\<open>std::make_shared\<close> creates, \<open>now\<close> the clock the constructor reads.
  \<^verbatim>\<open>id_gen_.fetch_add(1)\<close> returns the old counter.
\<close>

definition submit_task :: "addr \<Rightarrow> int \<Rightarrow> Priority \<Rightarrow> Work \<Rightarrow> LeviathanKernel \<Rightarrow> LeviathanKernel" where
  "submit_task a now p w k =
     (let h1 = (heap k)(a := TaskContext_ctor (id_gen k) p w now);
          g1 = add_task h1 a (graph k);
          h2 = h1(a := (h1 a)\<lparr>state := READY\<rparr>);
          s1 = submit h2 a (scheduler k)
      in k\<lparr>heap := h2, graph := g1, scheduler := s1, id_gen := id_gen k + 1\<rparr>)"

subsection \<open>The facade as the specification words it\<close>




subsection \<open>Dependent release as the specification words it\<close>

text \<open>
  For comparison with \<open>complete_task\<close> only. \<open>ds\<close> lists the addresses of the
  dependents of the completed task, one entry per edge, in list order. The dependent
  at position \<open>i\<close> is released when the decrement made for that position brings its
  counter to zero: the counter it started with, less one for each earlier position
  that names the same dependent, stands at 1. \<open>released\<close> lists these dependents
  in order. \<open>after_release\<close> is the store afterwards: each context's counter is
  decremented once per edge, the released ones are READY, nothing else is touched.
\<close>

definition released :: "heap \<Rightarrow> addr list \<Rightarrow> addr list" where
  "released h ds =
     map (\<lambda>i. ds ! i)
       (filter (\<lambda>i. unsatisfied_deps (h (ds ! i))
                       - of_nat (count_list (take i ds) (ds ! i)) = 1)
          [0..<length ds])"

definition after_release :: "heap \<Rightarrow> addr list \<Rightarrow> heap" where
  "after_release h ds =
     (\<lambda>a. (h a)\<lparr>unsatisfied_deps := unsatisfied_deps (h a) - of_nat (count_list ds a),
                  state := (if a \<in> set (released h ds) then READY else state (h a))\<rparr>)"

subsection \<open>The outcome of a run as the specification words it\<close>

text \<open>
  For comparison with \<open>worker_run_task\<close> only: the store after a task has run with
  outcome \<open>st\<close> between the clock readings \<open>t0\<close> and \<open>t1\<close>. The task has that
  state and the elapsed time added to its cpu-time counter; nothing else differs.
\<close>

definition finished :: "TaskState \<Rightarrow> int \<Rightarrow> int \<Rightarrow> addr \<Rightarrow> heap \<Rightarrow> heap" where
  "finished st t0 t1 task h =
     h(task := (h task)\<lparr>state := st,
                         cpu_time_ns := cpu_time_ns (h task) + word_of_int (t1 - t0)\<rparr>)"

subsection \<open>An invariant of the registry\<close>

text \<open>
  Every id in the dependents list of a registered context is itself registered.
  The constructor leaves the list empty and \<^verbatim>\<open>add_dependency\<close>, the only writer,
  appends registered ids only; nothing is ever removed from the registry.
\<close>

definition edges_registered :: "TaskGraph \<Rightarrow> heap \<Rightarrow> bool" where
  "edges_registered g h =
     (\<forall>i a d. tasks g i = Some a \<and> d \<in> set (dependents (h a)) \<longrightarrow> tasks g d \<noteq> None)"

subsection \<open>An invariant of the id counter\<close>

text \<open>
  Every registered id is below \<^verbatim>\<open>id_gen_\<close>. The kernel starts with the counter at
  1 and an empty registry, and \<^verbatim>\<open>submit_task\<close>, the only caller of
  \<^verbatim>\<open>add_task\<close>, registers the old value of the counter.
\<close>

definition ids_below_counter :: "LeviathanKernel \<Rightarrow> bool" where
  "ids_below_counter k = (\<forall>i. tasks (graph k) i \<noteq> None \<longrightarrow> unat i < unat (id_gen k))"

subsection \<open>Concrete states\<close>

text \<open>
  A store in which address \<open>a\<close> holds a freshly constructed NORMAL task with id
  \<open>a\<close>, and a registry with the tasks 11, 12, 13 and 14 at the addresses of the
  same number.
\<close>

definition demo_heap :: heap where
  "demo_heap = (\<lambda>a. TaskContext_ctor (of_nat a) NORMAL Returns 0)"

definition demo_graph :: TaskGraph where
  "demo_graph =
     \<lparr>tasks = (\<lambda>i. if i = 11 then Some 11 else if i = 12 then Some 12
                    else if i = 13 then Some 13 else if i = 14 then Some 14 else None)\<rparr>"

text \<open>
  A store for the scheduler: the tasks at the addresses 2 and 5 are REALTIME, the one
  at 4 is HIGH, the one at 6 is NORMAL, every other one is LOW.
\<close>

definition prio_heap :: heap where
  "prio_heap =
     (\<lambda>a. TaskContext_ctor (of_nat a)
             (if a = 2 \<or> a = 5 then REALTIME else if a = 4 then HIGH
              else if a = 6 then NORMAL else LOW) Returns 0)"

text \<open>
  A slab allocator for objects of 1024 bytes in blocks of 4096 bytes, as constructed
  with its first page at address 4096: four slots, at 4096, 5120, 6144 and 7168.
\<close>

definition demo_slab :: SlabAllocator where
  "demo_slab = SlabAllocator_ctor 1024 4096 4096 (\<lambda>a. 0)"

text \<open>
  A network interface that has received nothing yet: head and tail 0, as their member
  initialisers set them, and zero-filled slots.
\<close>

definition zero_packet :: Packet where
  "zero_packet =
     \<lparr>pkt_id = 0, src_ip = 0, dest_ip = 0, src_port = 0, dest_port = 0,
      payload = replicate 128 0, pkt_size = 0\<rparr>"

definition fresh_interface :: NetworkInterface where
  "fresh_interface = \<lparr>rx_ring = (\<lambda>i. zero_packet), rx_head = 0, rx_tail = 0\<rparr>"

text \<open>
  The demo store after five \<^verbatim>\<open>add_dependency\<close> calls: task 11 gets the
  dependents 12, 13, 13 and 14 (the edge to 13 is added twice), task 12 the dependent
  14. So the counters of 12, 13 and 14 are 1, 2 and 2.
\<close>

definition edge_heap :: heap where
  "edge_heap =
     add_dependency 12 14 demo_graph
       (add_dependency 11 14 demo_graph
          (add_dependency 11 13 demo_graph
             (add_dependency 11 13 demo_graph
                (add_dependency 11 12 demo_graph demo_heap))))"


definition worker_demo :: "Work \<Rightarrow> LeviathanKernel" where
  "worker_demo w =
     \<lparr>heap = edge_heap(11 := (edge_heap 11)\<lparr>work := w, state := READY\<rparr>),
      graph = demo_graph,
      scheduler = \<lparr>queues = (\<lambda>i. if i = 2 then [11] else [])\<rparr>,
      id_gen = 15, logger = []\<rparr>"

section \<open>Properties\<close>

subsection \<open>KernelLogger: the buffer is bounded and evicts oldest first\<close>

lemma log_length:
  "length (log now thr lvl f b) =
     (if length b \<ge> max_buffer_size then length b else Suc (length b))"
  by (cases b) (auto simp: log_def Let_def max_buffer_size_def)

lemma log_step:
  "log now thr lvl f b =
     (if max_buffer_size \<le> length b then tl b else b) @ [entry_of (now, thr, lvl, f)]"
  by (simp add: log_def Let_def)

lemma log_eq:
  assumes "length b \<le> max_buffer_size"
  shows "log now thr lvl f b =
           drop (Suc (length b) - max_buffer_size) (b @ [entry_of (now, thr, lvl, f)])"
  using assms by (cases b) (auto simp: log_def Let_def max_buffer_size_def)

lemma log_all_eq:
  assumes "length b \<le> max_buffer_size"
  shows "log_all cs b = drop (length b + length cs - max_buffer_size) (b @ map entry_of cs)"
  using assms
proof (induction cs arbitrary: b)
  case Nil
  then show ?case by simp
next
  case (Cons c cs)
  obtain now thr lvl f where c: "c = (now, thr, lvl, f)" by (cases c) auto
  let ?b1 = "log now thr lvl f b"
  have len1: "length ?b1 \<le> max_buffer_size"
    using Cons.prems by (simp add: log_length)
  have b1: "?b1 = drop (Suc (length b) - max_buffer_size) (b @ [entry_of c])"
    using log_eq[OF Cons.prems] c by simp
  have "log_all (c # cs) b = log_all cs ?b1" by (simp add: c)
  also have "\<dots> = drop (length ?b1 + length cs - max_buffer_size) (?b1 @ map entry_of cs)"
    by (rule Cons.IH[OF len1])
  also have "\<dots> = drop (length b + length (c # cs) - max_buffer_size) (b @ map entry_of (c # cs))"
  proof (cases "length b \<ge> max_buffer_size")
    case True
    then have lb: "length b = max_buffer_size" using Cons.prems by simp
    then have ne: "b \<noteq> []" by (auto simp: max_buffer_size_def)
    have l1: "length ?b1 = max_buffer_size" using lb by (simp add: log_length)
    have "?b1 = drop 1 (b @ [entry_of c])" using b1 lb by simp
    then have "?b1 @ map entry_of cs = drop 1 (b @ map entry_of (c # cs))"
      using ne by (cases b) auto
    then have "drop (length ?b1 + length cs - max_buffer_size) (?b1 @ map entry_of cs)
        = drop (length cs) (drop 1 (b @ map entry_of (c # cs)))"
      using l1 by simp
    also have "\<dots> = drop (length b + length (c # cs) - max_buffer_size) (b @ map entry_of (c # cs))"
      using lb by (simp only: drop_drop) simp
    finally show ?thesis .
  next
    case False
    then have "?b1 = b @ [entry_of c]" using b1 by simp
    then show ?thesis by simp
  qed
  finally show ?case .
qed

text \<open>
  Claim C8. The capacity is 10000. A push onto a buffer whose size is at or above the
  capacity drops the oldest entry first. Starting from a buffer within capacity (the
  logger starts empty), any sequence of \<^verbatim>\<open>log\<close> calls leaves a buffer within
  capacity, holding the last entries of the old buffer followed by the pushed ones;
  after more than 10000 pushes it holds exactly the last 10000 pushed entries, in
  push order. When formatting fails the stored message is the fixed string
  \<^verbatim>\<open>LOG FORMAT ERROR\<close>.
\<close>

theorem log_buffer_bounded_eviction:
  assumes "length b \<le> max_buffer_size"
  shows "max_buffer_size = 10000
    \<and> log now thr lvl f b =
        (if max_buffer_size \<le> length b then tl b else b) @ [entry_of (now, thr, lvl, f)]
    \<and> length (log_all cs b) \<le> max_buffer_size
    \<and> log_all cs b = drop (length b + length cs - max_buffer_size) (b @ map entry_of cs)
    \<and> (max_buffer_size < length cs \<longrightarrow>
          length (log_all cs b) = max_buffer_size
          \<and> log_all cs b = drop (length cs - max_buffer_size) (map entry_of cs))
    \<and> message (entry_of (now, thr, lvl, None)) = ''LOG FORMAT ERROR''
    \<and> message (entry_of (now, thr, lvl, Some m)) = m"
proof -
  have eq: "log_all cs b = drop (length b + length cs - max_buffer_size) (b @ map entry_of cs)"
    by (rule log_all_eq[OF assms])
  have len: "length (log_all cs b) \<le> max_buffer_size"
    using assms by (simp add: eq)
  have over: "max_buffer_size < length cs \<longrightarrow>
          length (log_all cs b) = max_buffer_size
          \<and> log_all cs b = drop (length cs - max_buffer_size) (map entry_of cs)"
    using assms by (auto simp: eq)
  show ?thesis
    using eq len over
    by (simp add: log_step format_or_diagnostic_def) (simp add: max_buffer_size_def)
qed

theorem log_buffer_bounded_eviction_witness:
  "length ([] :: KernelLogger) \<le> max_buffer_size
   \<and> log_all (replicate 10001 (0, 0, INFO, None)) [] =
       replicate 10000
         \<lparr>timestamp = 0, level = INFO, tid = 0, message = ''LOG FORMAT ERROR''\<rparr>"
  using log_buffer_bounded_eviction[where b = "[]" and cs = "replicate 10001 (0, 0, INFO, None)"]
  by (simp add: max_buffer_size_def format_or_diagnostic_def)

subsection \<open>TaskGraph: registration\<close>

text \<open>
  Claim C3, as the source has it. \<^verbatim>\<open>add_task\<close> cannot fail and has no duplicate
  check: it stores the context under its id whether or not the id was registered,
  replacing the earlier entry, and leaves every other id as it was. A context that
  comes straight from the constructor is registered in state PENDING with an
  unsatisfied count of 0.
\<close>

theorem add_task_overwrites:
  "tasks (add_task h t g) (tc_id (h t)) = Some t
   \<and> (\<forall>i. i \<noteq> tc_id (h t) \<longrightarrow> tasks (add_task h t g) i = tasks g i)
   \<and> (h t = TaskContext_ctor i p w now \<longrightarrow>
        tasks (add_task h t g) i = Some t \<and> state (h t) = PENDING \<and> unsatisfied_deps (h t) = 0)"
  by (simp add: add_task_def TaskContext_ctor_def)

theorem add_task_overwrites_witness:
  "tasks (add_task (demo_heap(3 := TaskContext_ctor 11 HIGH Returns 5)) 3 demo_graph) 11 = Some 3
   \<and> tasks (add_task (demo_heap(3 := TaskContext_ctor 11 HIGH Returns 5)) 3 demo_graph) 12 = Some 12
   \<and> tasks (add_task (demo_heap(3 := TaskContext_ctor 11 HIGH Returns 5)) 3 demo_graph) 7 = None
   \<and> state ((demo_heap(3 := TaskContext_ctor 11 HIGH Returns 5)) 3) = PENDING
   \<and> unsatisfied_deps ((demo_heap(3 := TaskContext_ctor 11 HIGH Returns 5)) 3) = 0"
  using add_task_overwrites[of "demo_heap(3 := TaskContext_ctor 11 HIGH Returns 5)" 3 demo_graph
      11 HIGH Returns 5]
  by (simp add: demo_graph_def TaskContext_ctor_def)

text \<open>
  Claim C3 as stated fails: id 11 is registered at address 11; adding another context
  whose id is 11 (at address 3) returns a registry that maps 11 to the new context.
\<close>

theorem add_task_duplicate_counterexample:
  "tasks demo_graph 11 = Some 11
   \<and> tasks (add_task (demo_heap(3 := TaskContext_ctor 11 HIGH Returns 5)) 3 demo_graph) 11 = Some 3
   \<and> add_task (demo_heap(3 := TaskContext_ctor 11 HIGH Returns 5)) 3 demo_graph \<noteq> demo_graph"
proof -
  let ?g = "add_task (demo_heap(3 := TaskContext_ctor 11 HIGH Returns 5)) 3 demo_graph"
  have a: "tasks demo_graph 11 = Some 11" by (simp add: demo_graph_def)
  have b: "tasks ?g 11 = Some 3" by (simp add: add_task_def TaskContext_ctor_def)
  have "?g \<noteq> demo_graph"
  proof
    assume "?g = demo_graph"
    then have "tasks ?g 11 = tasks demo_graph 11" by simp
    with a b show False by simp
  qed
  with a b show ?thesis by simp
qed

subsection \<open>TaskGraph: completing an unknown id\<close>

text \<open>
  Claim C10. For an id that is not in the registry \<^verbatim>\<open>complete_task\<close> returns
  normally with the empty list; the store of task contexts (states, counters, edge
  lists) is the one it was given, and the registry is only read.
\<close>

theorem complete_task_unknown_id:
  assumes "tasks g task_id = None"
  shows "complete_task task_id g h = Inr (h, [])"
  using assms by (simp add: complete_task_def)

theorem complete_task_unknown_id_witness:
  "tasks demo_graph 7 = None \<and> complete_task 7 demo_graph demo_heap = Inr (demo_heap, [])"
  using complete_task_unknown_id[of demo_graph 7 demo_heap]
  by (simp add: demo_graph_def)

subsection \<open>MLFQScheduler: strict priority, FIFO inside a band\<close>

lemma priority_idx_lt4: "priority_idx p < 4"
  by (cases p) auto

lemma queues_submit:
  "queues (submit h t s) i =
     (if i = priority_idx (priority (h t)) then queues s i @ [t] else queues s i)"
  by (simp add: submit_def Let_def)

lemma queues_submit_all:
  "queues (submit_all h ts s) i = queues s i @ band h i ts"
  by (induction ts arbitrary: s) (auto simp: queues_submit band_def)

lemma get_next_empty:
  assumes "\<forall>i<4. queues s i = []"
  shows "get_next s = (None, s)"
proof -
  have "queues s 0 = []" "queues s 1 = []" "queues s 2 = []" "queues s 3 = []"
    using assms by auto
  then show ?thesis by (simp add: get_next_def)
qed

lemma get_next_head:
  assumes "i < 4" "queues s i = t # q'" "\<forall>j<i. queues s j = []"
  shows "get_next s = (Some t, s\<lparr>queues := (queues s)(i := q')\<rparr>)"
proof -
  have "i = 0 \<or> i = 1 \<or> i = 2 \<or> i = 3" using assms(1) by arith
  then show ?thesis
    using assms(2,3) by (auto simp: get_next_def)
qed

lemma get_next_None_iff:
  "fst (get_next s) = None \<longleftrightarrow> (\<forall>i<4. queues s i = [])"
proof
  assume "\<forall>i<4. queues s i = []"
  then show "fst (get_next s) = None" by (simp add: get_next_empty)
next
  assume a: "fst (get_next s) = None"
  have "queues s 0 = [] \<and> queues s 1 = [] \<and> queues s 2 = [] \<and> queues s 3 = []"
    using a by (auto simp: get_next_def split: list.splits)
  moreover have "i = 0 \<or> i = 1 \<or> i = 2 \<or> i = 3" if "i < 4" for i :: nat
    using that by arith
  ultimately show "\<forall>i<4. queues s i = []" by auto
qed

lemma get_next_dispatch:
  assumes "dispatch_order s = t # rest"
  shows "\<exists>s'. get_next s = (Some t, s') \<and> dispatch_order s' = rest
            \<and> (\<forall>i. 4 \<le> i \<longrightarrow> queues s' i = queues s i)"
  using assms
  by (auto simp: get_next_def dispatch_order_def append_eq_Cons_conv split: list.splits)

lemma get_next_n_dispatch:
  "\<exists>s'. get_next_n (length (dispatch_order s)) s = (map Some (dispatch_order s), s')
        \<and> dispatch_order s' = [] \<and> (\<forall>i. 4 \<le> i \<longrightarrow> queues s' i = queues s i)"
proof (induction "length (dispatch_order s)" arbitrary: s)
  case 0
  then show ?case by simp
next
  case (Suc n)
  then obtain t rest where d: "dispatch_order s = t # rest"
    by (cases "dispatch_order s") auto
  obtain s1 where s1: "get_next s = (Some t, s1)" "dispatch_order s1 = rest"
      "\<forall>i. 4 \<le> i \<longrightarrow> queues s1 i = queues s i"
    using get_next_dispatch[OF d] by blast
  have n: "n = length (dispatch_order s1)" using Suc.hyps(2) d s1(2) by simp
  obtain s' where s': "get_next_n (length (dispatch_order s1)) s1 = (map Some (dispatch_order s1), s')"
      "dispatch_order s' = []" "\<forall>i. 4 \<le> i \<longrightarrow> queues s' i = queues s1 i"
    using Suc.hyps(1)[OF n] by blast
  show ?case
    using s1 s' d by auto
qed

lemma dispatch_order_submit_all:
  "dispatch_order (submit_all h ts empty_scheduler) = band h 0 ts @ band h 1 ts @ band h 2 ts @ band h 3 ts"
  by (simp add: dispatch_order_def queues_submit_all empty_scheduler_def)

lemma length_bands: "length (band h 0 ts @ band h 1 ts @ band h 2 ts @ band h 3 ts) = length ts"
proof (induction ts)
  case Nil
  then show ?case by (simp add: band_def)
next
  case (Cons t ts)
  have "priority_idx (priority (h t)) < 4" by (rule priority_idx_lt4)
  then have "priority_idx (priority (h t)) = 0 \<or> priority_idx (priority (h t)) = 1
      \<or> priority_idx (priority (h t)) = 2 \<or> priority_idx (priority (h t)) = 3"
    by arith
  then show ?case using Cons by (auto simp: band_def)
qed

text \<open>
  Claim C2. \<^verbatim>\<open>submit\<close> appends the task at the tail of the queue of its
  priority (REALTIME 0, HIGH 1, NORMAL 2, LOW 3) and touches no other queue.
  \<^verbatim>\<open>get_next\<close> pops the head of the first non-empty queue among 0, 1, 2, 3 and
  returns nothing exactly when all four are empty. Hence tasks submitted in the order
  \<open>ts\<close> to an empty scheduler are handed out band by band, band 0 first, and in
  submission order inside a band; the call after the last of them returns nothing.
\<close>

theorem scheduler_strict_priority_fifo:
  "priority_idx REALTIME = 0 \<and> priority_idx HIGH = 1 \<and> priority_idx NORMAL = 2 \<and> priority_idx LOW = 3
   \<and> queues (submit h t s) (priority_idx (priority (h t))) = queues s (priority_idx (priority (h t))) @ [t]
   \<and> (\<forall>i. i \<noteq> priority_idx (priority (h t)) \<longrightarrow> queues (submit h t s) i = queues s i)
   \<and> (\<forall>i q' x. i < 4 \<and> queues s i = x # q' \<and> (\<forall>j<i. queues s j = []) \<longrightarrow>
         get_next s = (Some x, s\<lparr>queues := (queues s)(i := q')\<rparr>))
   \<and> ((\<forall>i<4. queues s i = []) \<longrightarrow> get_next s = (None, s))
   \<and> (fst (get_next s) = None \<longleftrightarrow> (\<forall>i<4. queues s i = []))
   \<and> fst (get_next_n (length ts) (submit_all h ts empty_scheduler)) =
        map Some (band h 0 ts @ band h 1 ts @ band h 2 ts @ band h 3 ts)
   \<and> fst (get_next (snd (get_next_n (length ts) (submit_all h ts empty_scheduler)))) = None"
proof -
  let ?s = "submit_all h ts empty_scheduler"
  have len: "length (dispatch_order ?s) = length ts"
    using length_bands[of h ts] by (simp add: dispatch_order_submit_all)
  obtain s' where s': "get_next_n (length ts) ?s = (map Some (dispatch_order ?s), s')"
     "dispatch_order s' = []"
    using get_next_n_dispatch[of ?s] len by auto
  have e: "\<forall>i<4. queues s' i = []"
  proof (intro allI impI)
    fix i :: nat assume "i < 4"
    then have "i = 0 \<or> i = 1 \<or> i = 2 \<or> i = 3" by arith
    then show "queues s' i = []" using s'(2) by (auto simp: dispatch_order_def)
  qed
  have drained: "fst (get_next (snd (get_next_n (length ts) ?s))) = None"
    using e s'(1) by (simp add: get_next_None_iff)
  have order: "fst (get_next_n (length ts) ?s) = map Some (band h 0 ts @ band h 1 ts @ band h 2 ts @ band h 3 ts)"
    using s'(1) by (simp add: dispatch_order_submit_all)
  have heads: "\<forall>i q' x. i < 4 \<and> queues s i = x # q' \<and> (\<forall>j<i. queues s j = []) \<longrightarrow>
         get_next s = (Some x, s\<lparr>queues := (queues s)(i := q')\<rparr>)"
    using get_next_head by blast
  have none: "(\<forall>i<4. queues s i = []) \<longrightarrow> get_next s = (None, s)"
    using get_next_empty by blast
  show ?thesis
    using drained order heads none get_next_None_iff[of s]
    by (simp add: queues_submit)
qed

theorem scheduler_strict_priority_fifo_witness:
  "fst (get_next_n 6 (submit_all prio_heap [1, 2, 3, 4, 5, 6] empty_scheduler)) =
     [Some 2, Some 5, Some 4, Some 6, Some 1, Some 3]
   \<and> fst (get_next (snd (get_next_n 6 (submit_all prio_heap [1, 2, 3, 4, 5, 6] empty_scheduler))))
       = None
   \<and> queues (submit prio_heap 4 empty_scheduler) 1 = [4]
   \<and> queues (submit prio_heap 4 empty_scheduler) 0 = []"
proof -
  have six: "length [1, 2, 3, 4, 5, 6 :: nat] = 6" by simp
  note th = scheduler_strict_priority_fifo[where h = prio_heap and ts = "[1, 2, 3, 4, 5, 6]"
      and t = 4 and s = empty_scheduler, unfolded six]
  have p: "priority_idx (priority (prio_heap 4)) = 1"
    by (simp add: prio_heap_def TaskContext_ctor_def)
  have b: "band prio_heap 0 [1, 2, 3, 4, 5, 6] = [2, 5]" "band prio_heap 1 [1, 2, 3, 4, 5, 6] = [4]"
    "band prio_heap 2 [1, 2, 3, 4, 5, 6] = [6]" "band prio_heap 3 [1, 2, 3, 4, 5, 6] = [1, 3]"
    by (simp_all add: band_def prio_heap_def TaskContext_ctor_def)
  have e: "queues empty_scheduler 1 = []" "queues empty_scheduler 0 = []"
    by (simp_all add: empty_scheduler_def)
  from th have A: "fst (get_next_n 6 (submit_all prio_heap [1, 2, 3, 4, 5, 6] empty_scheduler)) =
      map Some (band prio_heap 0 [1, 2, 3, 4, 5, 6] @ band prio_heap 1 [1, 2, 3, 4, 5, 6]
        @ band prio_heap 2 [1, 2, 3, 4, 5, 6] @ band prio_heap 3 [1, 2, 3, 4, 5, 6])"
    by blast
  from th have B: "fst (get_next (snd (get_next_n 6
      (submit_all prio_heap [1, 2, 3, 4, 5, 6] empty_scheduler)))) = None"
    by blast
  from th have C: "queues (submit prio_heap 4 empty_scheduler) (priority_idx (priority (prio_heap 4)))
      = queues empty_scheduler (priority_idx (priority (prio_heap 4))) @ [4]"
    by blast
  from th have D: "\<forall>i. i \<noteq> priority_idx (priority (prio_heap 4)) \<longrightarrow>
      queues (submit prio_heap 4 empty_scheduler) i = queues empty_scheduler i"
    by blast
  have D0: "queues (submit prio_heap 4 empty_scheduler) 0 = []"
    using D p e by simp
  have A': "fst (get_next_n 6 (submit_all prio_heap [1, 2, 3, 4, 5, 6] empty_scheduler)) =
     [Some 2, Some 5, Some 4, Some 6, Some 1, Some 3]"
    unfolding A b by simp
  have C': "queues (submit prio_heap 4 empty_scheduler) 1 = [4]"
    using C unfolding p e by simp
  show ?thesis
    using A' B C' D0 by blast
qed

subsection \<open>TaskGraph: adding an edge\<close>

lemma add_dependency_absent:
  assumes "tasks g parent = None \<or> tasks g child = None"
  shows "add_dependency parent child g h = h"
  using assms by (auto simp: add_dependency_def split: option.splits)

lemma add_dependency_present:
  assumes "tasks g parent = Some p" "tasks g child = Some c"
  shows "add_dependency parent child g h =
    (let h1 = h(p := (h p)\<lparr>dependents := dependents (h p) @ [child]\<rparr>)
     in h1(c := (h1 c)\<lparr>dependencies := dependencies (h1 c) @ [parent],
                       unsatisfied_deps := unsatisfied_deps (h1 c) + 1,
                       state := BLOCKED\<rparr>))"
  using assms by (simp add: add_dependency_def Let_def)

text \<open>
  Claim C4, as the source has it. \<^verbatim>\<open>add_dependency\<close> cannot fail: when either
  id is not registered it returns normally and nothing is changed. When both are
  registered it appends the child id to the parent's dependents, the parent id to the
  child's dependencies, adds 1 (modulo \<open>2 ^ 32\<close>) to the child's unsatisfied count
  and sets the child's state to BLOCKED, whatever the state was; no other context is
  changed and, for distinct parent and child, no other field of the two.
\<close>

theorem add_dependency_effect:
  "(tasks g parent = None \<or> tasks g child = None \<longrightarrow> add_dependency parent child g h = h)
   \<and> (\<forall>p c. tasks g parent = Some p \<and> tasks g child = Some c \<longrightarrow>
         dependents (add_dependency parent child g h p) = dependents (h p) @ [child]
       \<and> dependencies (add_dependency parent child g h c) = dependencies (h c) @ [parent]
       \<and> unsatisfied_deps (add_dependency parent child g h c) = unsatisfied_deps (h c) + 1
       \<and> state (add_dependency parent child g h c) = BLOCKED
       \<and> (\<forall>a. a \<noteq> p \<and> a \<noteq> c \<longrightarrow> add_dependency parent child g h a = h a)
       \<and> (p \<noteq> c \<longrightarrow>
            add_dependency parent child g h p = (h p)\<lparr>dependents := dependents (h p) @ [child]\<rparr>
          \<and> add_dependency parent child g h c =
              (h c)\<lparr>dependencies := dependencies (h c) @ [parent],
                     unsatisfied_deps := unsatisfied_deps (h c) + 1, state := BLOCKED\<rparr>))"
proof -
  have absent: "tasks g parent = None \<or> tasks g child = None \<longrightarrow> add_dependency parent child g h = h"
    using add_dependency_absent by blast
  have present: "dependents (add_dependency parent child g h p) = dependents (h p) @ [child]
       \<and> dependencies (add_dependency parent child g h c) = dependencies (h c) @ [parent]
       \<and> unsatisfied_deps (add_dependency parent child g h c) = unsatisfied_deps (h c) + 1
       \<and> state (add_dependency parent child g h c) = BLOCKED
       \<and> (\<forall>a. a \<noteq> p \<and> a \<noteq> c \<longrightarrow> add_dependency parent child g h a = h a)
       \<and> (p \<noteq> c \<longrightarrow>
            add_dependency parent child g h p = (h p)\<lparr>dependents := dependents (h p) @ [child]\<rparr>
          \<and> add_dependency parent child g h c =
              (h c)\<lparr>dependencies := dependencies (h c) @ [parent],
                     unsatisfied_deps := unsatisfied_deps (h c) + 1, state := BLOCKED\<rparr>)"
    if "tasks g parent = Some p" "tasks g child = Some c" for p c
    using add_dependency_present[OF that] by (simp add: Let_def)
  show ?thesis using absent present by blast
qed

theorem add_dependency_effect_witness:
  "add_dependency 5 9 demo_graph demo_heap = demo_heap
   \<and> dependents (add_dependency 12 13 demo_graph demo_heap 12) = [13]
   \<and> dependencies (add_dependency 12 13 demo_graph demo_heap 13) = [12]
   \<and> unsatisfied_deps (add_dependency 12 13 demo_graph demo_heap 13) = 1
   \<and> state (add_dependency 12 13 demo_graph demo_heap 13) = BLOCKED
   \<and> add_dependency 12 13 demo_graph demo_heap 14 = demo_heap 14"
proof -
  have t: "tasks demo_graph 5 = None" "tasks demo_graph 12 = Some 12" "tasks demo_graph 13 = Some 13"
    by (simp_all add: demo_graph_def)
  have d: "dependents (demo_heap 12) = []" "dependencies (demo_heap 13) = []"
     "unsatisfied_deps (demo_heap 13) = 0"
    by (simp_all add: demo_heap_def TaskContext_ctor_def)
  have A: "add_dependency 5 9 demo_graph demo_heap = demo_heap"
    using add_dependency_effect[of demo_graph 5 9 demo_heap] t by blast
  note th = add_dependency_effect[of demo_graph 12 13 demo_heap, THEN conjunct2, rule_format, of 12 13]
  show ?thesis using A th t d by simp
qed

text \<open>
  Claim C4 as stated fails, twice: with an unregistered child (id 9) the call returns
  and the store is the one it was given; and a registered child in state COMPLETED is
  put into state BLOCKED.
\<close>

theorem add_dependency_counterexample:
  "add_dependency 12 9 demo_graph demo_heap = demo_heap
   \<and> state ((demo_heap(13 := (demo_heap 13)\<lparr>state := COMPLETED\<rparr>)) 13) = COMPLETED
   \<and> state (add_dependency 12 13 demo_graph
               (demo_heap(13 := (demo_heap 13)\<lparr>state := COMPLETED\<rparr>)) 13)
       = BLOCKED"
  by (simp add: add_dependency_def demo_graph_def)

subsection \<open>SlabAllocator: LIFO free list and the live counter\<close>

lemma allocate_counter:
  "allocated_objects (snd (allocate S B f s)) = allocated_objects s + 1"
  by (simp add: allocate_def expand_def Let_def)

lemma allocate_nonnull:
  assumes "f \<noteq> 0"
  shows "fst (allocate S B f s) \<noteq> 0"
  using assms by (simp add: allocate_def expand_def Let_def)

lemma allocate_all_counter:
  assumes "\<forall>f\<in>set fresh. f \<noteq> 0"
  shows "allocated_objects (snd (allocate_all S B fresh s)) = allocated_objects s + of_nat (length fresh)
       \<and> 0 \<notin> set (fst (allocate_all S B fresh s))
       \<and> length (fst (allocate_all S B fresh s)) = length fresh"
  using assms
proof (induction fresh arbitrary: s)
  case Nil
  then show ?case by simp
next
  case (Cons f fresh)
  obtain p s1 where a: "allocate S B f s = (p, s1)" by (cases "allocate S B f s")
  obtain ps s2 where b: "allocate_all S B fresh s1 = (ps, s2)" by (cases "allocate_all S B fresh s1")
  have p: "p \<noteq> 0" using allocate_nonnull[of f S B s] Cons.prems a by simp
  have c1: "allocated_objects s1 = allocated_objects s + 1"
    using allocate_counter[of S B f s] a by simp
  have ih: "allocated_objects s2 = allocated_objects s1 + of_nat (length fresh)
       \<and> 0 \<notin> set ps \<and> length ps = length fresh"
    using Cons.IH[of s1] Cons.prems b by simp
  show ?case using a b p c1 ih by simp
qed

lemma deallocate_all_counter:
  assumes "0 \<notin> set qs"
  shows "allocated_objects (deallocate_all qs s) = allocated_objects s - of_nat (length qs)"
  using assms
  by (induction qs arbitrary: s) (auto simp: deallocate_def)

text \<open>
  Claim C9. \<^verbatim>\<open>allocate\<close> never returns a null pointer (a new page is at a
  non-null address), so every pointer \<open>p\<close> that a matching \<^verbatim>\<open>deallocate\<close>
  is given is non-null. For such a \<open>p\<close>, \<^verbatim>\<open>deallocate(p)\<close> makes \<open>p\<close> the
  head of the free list, linked to the old head, and the \<^verbatim>\<open>allocate\<close> that
  follows returns exactly \<open>p\<close> and restores the old head. For any run of
  allocations (slots of at least pointer size that fit the block, each new page at a
  non-null address) followed by the deallocation of the returned pointers in any
  order, the live counter is back at its old value.
\<close>

theorem slab_lifo_round_trip:
  "(fresh \<noteq> 0 \<longrightarrow> fst (allocate ObjectSize BlockSize fresh s) \<noteq> 0)
   \<and> (p \<noteq> 0 \<longrightarrow>
      free_list (deallocate p s) = p
    \<and> block_next (deallocate p s) p = free_list s
    \<and> fst (allocate ObjectSize BlockSize fresh (deallocate p s)) = p
    \<and> free_list (snd (allocate ObjectSize BlockSize fresh (deallocate p s))) = free_list s)
   \<and> (sizeof_Block \<le> ObjectSize \<and> ObjectSize \<le> BlockSize \<and> (\<forall>f\<in>set pages_got. f \<noteq> 0)
        \<and> mset qs = mset (fst (allocate_all ObjectSize BlockSize pages_got s)) \<longrightarrow>
        stats_used (deallocate_all qs (snd (allocate_all ObjectSize BlockSize pages_got s)))
          = stats_used s)"
proof -
  have nonnull: "fst (allocate ObjectSize BlockSize fresh s) \<noteq> 0" if "fresh \<noteq> 0"
    using that by (rule allocate_nonnull)
  have lifo: "free_list (deallocate p s) = p
    \<and> block_next (deallocate p s) p = free_list s
    \<and> fst (allocate ObjectSize BlockSize fresh (deallocate p s)) = p
    \<and> free_list (snd (allocate ObjectSize BlockSize fresh (deallocate p s))) = free_list s"
    if "p \<noteq> 0"
    using that by (simp add: deallocate_def allocate_def Let_def)
  have round: "stats_used (deallocate_all qs (snd (allocate_all ObjectSize BlockSize pages_got s)))
          = stats_used s"
    if nz: "\<forall>f\<in>set pages_got. f \<noteq> 0"
      and m: "mset qs = mset (fst (allocate_all ObjectSize BlockSize pages_got s))"
  proof -
    let ?ps = "fst (allocate_all ObjectSize BlockSize pages_got s)"
    let ?s1 = "snd (allocate_all ObjectSize BlockSize pages_got s)"
    have a: "allocated_objects ?s1 = allocated_objects s + of_nat (length pages_got)"
      "0 \<notin> set ?ps" "length ?ps = length pages_got"
      using allocate_all_counter[OF nz, of ObjectSize BlockSize s] by auto
    have "set qs = set ?ps" using m by (rule mset_eq_setD)
    moreover have "length qs = length ?ps" using m by (rule mset_eq_length)
    ultimately have q: "0 \<notin> set qs" "length qs = length pages_got" using a by auto
    show ?thesis
      using deallocate_all_counter[OF q(1), of ?s1] a(1) q(2) by (simp add: stats_used_def)
  qed
  show ?thesis using nonnull lifo round by blast
qed

lemma upt3: "[0..<3] = [0, 1, 2 :: nat]"
  by code_simp

lemma demo_slab_free_list: "free_list demo_slab = 4096"
  by (simp add: demo_slab_def SlabAllocator_ctor_def expand_def Let_def)

lemma demo_slab_links:
  "block_next demo_slab 4096 = 5120 \<and> block_next demo_slab 5120 = 6144
   \<and> block_next demo_slab 6144 = 7168 \<and> block_next demo_slab 7168 = 0"
  by (simp add: demo_slab_def SlabAllocator_ctor_def expand_def Let_def link_slots_def upt3)

lemma demo_slab_allocate_two:
  "fst (allocate_all 1024 4096 [8192, 8192] demo_slab) = [4096, 5120]"
  by (simp add: allocate_def Let_def demo_slab_free_list demo_slab_links)

text \<open>
  On the allocator with one page of four slots: the first \<^verbatim>\<open>allocate\<close> hands out
  slot 4096 and leaves 5120 at the head; \<^verbatim>\<open>deallocate(4096)\<close> puts 4096 back at
  the head, and the next \<^verbatim>\<open>allocate\<close> returns 4096 again. Two allocations
  followed by the two deallocations in the reverse order restore the counter.
\<close>

lemma demo_slab_allocate_one:
  "fst (allocate 1024 4096 8192 demo_slab) = 4096
   \<and> free_list (snd (allocate 1024 4096 8192 demo_slab)) = 5120"
  by (simp add: allocate_def Let_def demo_slab_free_list demo_slab_links)

theorem slab_lifo_round_trip_witness:
  "fst (allocate 1024 4096 8192 demo_slab) = 4096
   \<and> free_list (snd (allocate 1024 4096 8192 demo_slab)) = 5120
   \<and> free_list (deallocate 4096 (snd (allocate 1024 4096 8192 demo_slab))) = 4096
   \<and> block_next (deallocate 4096 (snd (allocate 1024 4096 8192 demo_slab))) 4096 = 5120
   \<and> fst (allocate 1024 4096 8192
            (deallocate 4096 (snd (allocate 1024 4096 8192 demo_slab)))) = 4096
   \<and> free_list (snd (allocate 1024 4096 8192
            (deallocate 4096 (snd (allocate 1024 4096 8192 demo_slab))))) = 5120
   \<and> fst (allocate_all 1024 4096 [8192, 8192] demo_slab) = [4096, 5120]
   \<and> stats_used (deallocate_all [5120, 4096]
        (snd (allocate_all 1024 4096 [8192, 8192] demo_slab))) = stats_used demo_slab"
proof -
  note th = slab_lifo_round_trip[where p = 4096
      and s = "snd (allocate 1024 4096 8192 demo_slab)" and ObjectSize = 1024
      and BlockSize = 4096 and fresh = 8192 and pages_got = "[]" and qs = "[]"]
  note rt = slab_lifo_round_trip[where p = 4096 and s = demo_slab and ObjectSize = 1024
      and BlockSize = 4096 and fresh = 8192 and pages_got = "[8192, 8192]"
      and qs = "[5120, 4096]"]
  have m: "mset [5120, 4096 :: nat] = mset (fst (allocate_all 1024 4096 [8192, 8192] demo_slab))"
    unfolding demo_slab_allocate_two by (simp add: add_mset_commute)
  have lifo: "free_list (deallocate 4096 (snd (allocate 1024 4096 8192 demo_slab))) = 4096
   \<and> block_next (deallocate 4096 (snd (allocate 1024 4096 8192 demo_slab))) 4096 = 5120
   \<and> fst (allocate 1024 4096 8192
            (deallocate 4096 (snd (allocate 1024 4096 8192 demo_slab)))) = 4096
   \<and> free_list (snd (allocate 1024 4096 8192
            (deallocate 4096 (snd (allocate 1024 4096 8192 demo_slab))))) = 5120"
    using th demo_slab_allocate_one by simp
  have round: "stats_used (deallocate_all [5120, 4096]
        (snd (allocate_all 1024 4096 [8192, 8192] demo_slab))) = stats_used demo_slab"
    using rt m by (simp add: sizeof_Block_def)
  show ?thesis using lifo round demo_slab_allocate_one demo_slab_allocate_two by blast
qed

subsection \<open>NetworkInterface: drop on full\<close>

lemma ring_full_iff:
  fixes C h t :: nat
  assumes "h < C" "t < C"
  shows "(h + 1) mod C = t \<longleftrightarrow> (if h \<ge> t then h - t else C - t + h) = C - 1"
  using assms by (auto simp: mod_Suc)

lemma ring_advance:
  fixes C h t :: nat
  assumes "h < C" "t < C" "(h + 1) mod C \<noteq> t"
  shows "(h + 1) mod C < C
    \<and> (if (h + 1) mod C \<ge> t then (h + 1) mod C - t else C - t + (h + 1) mod C)
        = (if h \<ge> t then h - t else C - t + h) + 1"
  using assms by (auto simp: mod_Suc)

lemma depth_le:
  assumes "rx_head ni < LEVIATHAN_NET_RING_SIZE" "rx_tail ni < LEVIATHAN_NET_RING_SIZE"
  shows "depth ni \<le> LEVIATHAN_NET_RING_SIZE - 1"
  using assms by (auto simp: depth_def)

lemma receive_packet_full:
  assumes "(rx_head ni + 1) mod LEVIATHAN_NET_RING_SIZE = rx_tail ni"
  shows "receive_packet rid now thr data (ni, lg) =
     (Dropped, ni, log now thr WARN (Some ''[NET] RX Ring Buffer Overflow! Dropping packet.'') lg)"
  using assms by (simp add: receive_packet_def)

lemma receive_packet_room:
  assumes "(rx_head ni + 1) mod LEVIATHAN_NET_RING_SIZE \<noteq> rx_tail ni"
  shows "receive_packet rid now thr data (ni, lg) =
     (Stored,
      ni\<lparr>rx_ring := (rx_ring ni)(rx_head ni :=
             (rx_ring ni (rx_head ni))\<lparr>pkt_id := rid, pkt_size := min (length data) sizeof_payload,
                payload := memcpy_payload (payload (rx_ring ni (rx_head ni))) data
                             (min (length data) sizeof_payload)\<rparr>),
          rx_head := (rx_head ni + 1) mod LEVIATHAN_NET_RING_SIZE\<rparr>,
      log now thr TRACE (Some (''[NET] Received Packet ID:'' @ to_decimal (unat rid))) lg)"
  using assms by (simp add: receive_packet_def Let_def)

lemma receive_packet_depth:
  assumes "rx_head ni < LEVIATHAN_NET_RING_SIZE" "rx_tail ni < LEVIATHAN_NET_RING_SIZE"
    and "receive_packet rid now thr data (ni, lg) = (out, ni', lg')"
  shows "rx_head ni' < LEVIATHAN_NET_RING_SIZE \<and> rx_tail ni' = rx_tail ni
    \<and> (depth ni = LEVIATHAN_NET_RING_SIZE - 1 \<longrightarrow> out = Dropped \<and> depth ni' = depth ni)
    \<and> (depth ni \<noteq> LEVIATHAN_NET_RING_SIZE - 1 \<longrightarrow> out = Stored \<and> depth ni' = depth ni + 1)"
proof (cases "(rx_head ni + 1) mod LEVIATHAN_NET_RING_SIZE = rx_tail ni")
  case True
  have "depth ni = LEVIATHAN_NET_RING_SIZE - 1"
    using ring_full_iff[OF assms(1,2)] True by (simp add: depth_def)
  then show ?thesis
    using assms receive_packet_full[OF True, of rid now thr data lg] by auto
next
  case False
  have ne: "depth ni \<noteq> LEVIATHAN_NET_RING_SIZE - 1"
    using ring_full_iff[OF assms(1,2)] False by (simp add: depth_def)
  have adv: "(rx_head ni + 1) mod LEVIATHAN_NET_RING_SIZE < LEVIATHAN_NET_RING_SIZE"
    using ring_advance[OF assms(1,2) False] by blast
  have r: "out = Stored" "rx_head ni' = (rx_head ni + 1) mod LEVIATHAN_NET_RING_SIZE"
     "rx_tail ni' = rx_tail ni"
    using assms(3) receive_packet_room[OF False, of rid now thr data lg] by auto
  have "depth ni' =
      (if (rx_head ni + 1) mod LEVIATHAN_NET_RING_SIZE \<ge> rx_tail ni
       then (rx_head ni + 1) mod LEVIATHAN_NET_RING_SIZE - rx_tail ni
       else LEVIATHAN_NET_RING_SIZE - rx_tail ni + (rx_head ni + 1) mod LEVIATHAN_NET_RING_SIZE)"
    by (simp only: depth_def r(2) r(3))
  also have "\<dots> = (if rx_head ni \<ge> rx_tail ni then rx_head ni - rx_tail ni
       else LEVIATHAN_NET_RING_SIZE - rx_tail ni + rx_head ni) + 1"
    by (rule ring_advance[OF assms(1,2) False, THEN conjunct2])
  also have "\<dots> = depth ni + 1"
    by (simp only: depth_def)
  finally have "depth ni' = depth ni + 1" .
  then show ?thesis using ne r adv by simp
qed

lemma receive_all_counts:
  assumes "rx_head ni < LEVIATHAN_NET_RING_SIZE" "rx_tail ni < LEVIATHAN_NET_RING_SIZE"
  shows "stores (fst (receive_all cs (ni, lg))) = min (length cs) (LEVIATHAN_NET_RING_SIZE - 1 - depth ni)
    \<and> drops (fst (receive_all cs (ni, lg))) = length cs - (LEVIATHAN_NET_RING_SIZE - 1 - depth ni)
    \<and> depth (fst (snd (receive_all cs (ni, lg)))) = depth ni + min (length cs) (LEVIATHAN_NET_RING_SIZE - 1 - depth ni)
    \<and> rx_tail (fst (snd (receive_all cs (ni, lg)))) = rx_tail ni"
  using assms
proof (induction cs arbitrary: ni lg)
  case Nil
  then show ?case by (simp add: stores_def drops_def)
next
  case (Cons c cs)
  obtain rid now thr data where c: "c = (rid, now, thr, data)" by (cases c) auto
  obtain out ni1 lg1 where r: "receive_packet rid now thr data (ni, lg) = (out, ni1, lg1)"
    by (cases "receive_packet rid now thr data (ni, lg)") auto
  note step = receive_packet_depth[OF Cons.prems r]
  have b: "rx_head ni1 < LEVIATHAN_NET_RING_SIZE" "rx_tail ni1 < LEVIATHAN_NET_RING_SIZE"
    using step Cons.prems by auto
  note ih = Cons.IH[OF b, of lg1]
  have dl: "depth ni \<le> LEVIATHAN_NET_RING_SIZE - 1" by (rule depth_le[OF Cons.prems])
  obtain outs st2 where ra: "receive_all cs (ni1, lg1) = (outs, st2)"
    by (cases "receive_all cs (ni1, lg1)") auto
  have unf: "receive_all (c # cs) (ni, lg) = (out # outs, st2)"
    using c r ra by simp
  show ?case
  proof (cases "depth ni = LEVIATHAN_NET_RING_SIZE - 1")
    case True
    then have "out = Dropped" "depth ni1 = depth ni" using step by auto
    then show ?thesis using ih ra unf True step by (simp add: stores_def drops_def)
  next
    case False
    then have "out = Stored" "depth ni1 = depth ni + 1" using step by auto
    then show ?thesis using ih ra unf False step dl by (auto simp: stores_def drops_def)
  qed
qed

lemma memcpy_payload_prefix:
  assumes "n = min (length src) k"
  shows "take n (memcpy_payload dst src n) = take k src
       \<and> drop n (memcpy_payload dst src n) = drop n dst"
  using assms by (auto simp: memcpy_payload_def min_def)

text \<open>
  Claim C6. The ring has 2048 slots of 128 payload bytes. \<^verbatim>\<open>receive_packet\<close>
  computes \<open>(head + 1) mod 2048\<close>; if that is the tail, the packet is dropped, the
  ring is unchanged and a WARN entry is logged; otherwise the first
  \<open>min (length data) 128\<close> bytes of the data are copied into the head slot (the rest
  of the slot's buffer and every other slot keep their content), the slot's size is
  set to that number and the head advances. For a ring with indices in range, a run
  of \<open>N\<close> receives with no pop stores \<open>min N (2047 - depth)\<close> packets and drops the
  rest; from an empty ring that is \<open>min N 2047\<close> stored, \<open>N - 2047\<close> dropped (0 if
  \<open>N \<le> 2047\<close>) and a depth of \<open>min N 2047\<close> afterwards.
\<close>

theorem receive_packet_drop_on_full:
  "LEVIATHAN_NET_RING_SIZE = 2048 \<and> sizeof_payload = 128
   \<and> ((rx_head ni + 1) mod LEVIATHAN_NET_RING_SIZE = rx_tail ni \<longrightarrow>
        receive_packet rid now thr data (ni, lg) =
          (Dropped, ni,
           log now thr WARN (Some ''[NET] RX Ring Buffer Overflow! Dropping packet.'') lg))
   \<and> ((rx_head ni + 1) mod LEVIATHAN_NET_RING_SIZE \<noteq> rx_tail ni \<longrightarrow>
        fst (receive_packet rid now thr data (ni, lg)) = Stored
      \<and> rx_head (fst (snd (receive_packet rid now thr data (ni, lg))))
          = (rx_head ni + 1) mod LEVIATHAN_NET_RING_SIZE
      \<and> rx_tail (fst (snd (receive_packet rid now thr data (ni, lg)))) = rx_tail ni
      \<and> pkt_size (rx_ring (fst (snd (receive_packet rid now thr data (ni, lg)))) (rx_head ni))
          = min (length data) 128
      \<and> take (min (length data) 128)
           (payload (rx_ring (fst (snd (receive_packet rid now thr data (ni, lg)))) (rx_head ni)))
          = take 128 data
      \<and> drop (min (length data) 128)
           (payload (rx_ring (fst (snd (receive_packet rid now thr data (ni, lg)))) (rx_head ni)))
          = drop (min (length data) 128) (payload (rx_ring ni (rx_head ni)))
      \<and> (\<forall>i. i \<noteq> rx_head ni \<longrightarrow>
            rx_ring (fst (snd (receive_packet rid now thr data (ni, lg)))) i = rx_ring ni i))
   \<and> (rx_head ni < LEVIATHAN_NET_RING_SIZE \<and> rx_tail ni < LEVIATHAN_NET_RING_SIZE \<longrightarrow>
        stores (fst (receive_all cs (ni, lg)))
          = min (length cs) (LEVIATHAN_NET_RING_SIZE - 1 - depth ni)
      \<and> drops (fst (receive_all cs (ni, lg)))
          = length cs - (LEVIATHAN_NET_RING_SIZE - 1 - depth ni)
      \<and> depth (fst (snd (receive_all cs (ni, lg))))
          = depth ni + min (length cs) (LEVIATHAN_NET_RING_SIZE - 1 - depth ni))
   \<and> (rx_head ni = rx_tail ni \<and> rx_head ni < LEVIATHAN_NET_RING_SIZE \<longrightarrow>
        stores (fst (receive_all cs (ni, lg))) = min (length cs) (LEVIATHAN_NET_RING_SIZE - 1)
      \<and> drops (fst (receive_all cs (ni, lg))) = length cs - (LEVIATHAN_NET_RING_SIZE - 1)
      \<and> depth (fst (snd (receive_all cs (ni, lg)))) = min (length cs) (LEVIATHAN_NET_RING_SIZE - 1))"
proof -
  have sizes: "LEVIATHAN_NET_RING_SIZE = 2048 \<and> sizeof_payload = 128"
    by (simp add: LEVIATHAN_NET_RING_SIZE_def sizeof_payload_def)
  have full: "(rx_head ni + 1) mod LEVIATHAN_NET_RING_SIZE = rx_tail ni \<longrightarrow>
        receive_packet rid now thr data (ni, lg) =
          (Dropped, ni,
           log now thr WARN (Some ''[NET] RX Ring Buffer Overflow! Dropping packet.'') lg)"
    using receive_packet_full by blast
  have room: "fst (receive_packet rid now thr data (ni, lg)) = Stored
      \<and> rx_head (fst (snd (receive_packet rid now thr data (ni, lg))))
          = (rx_head ni + 1) mod LEVIATHAN_NET_RING_SIZE
      \<and> rx_tail (fst (snd (receive_packet rid now thr data (ni, lg)))) = rx_tail ni
      \<and> pkt_size (rx_ring (fst (snd (receive_packet rid now thr data (ni, lg)))) (rx_head ni))
          = min (length data) 128
      \<and> take (min (length data) 128)
           (payload (rx_ring (fst (snd (receive_packet rid now thr data (ni, lg)))) (rx_head ni)))
          = take 128 data
      \<and> drop (min (length data) 128)
           (payload (rx_ring (fst (snd (receive_packet rid now thr data (ni, lg)))) (rx_head ni)))
          = drop (min (length data) 128) (payload (rx_ring ni (rx_head ni)))
      \<and> (\<forall>i. i \<noteq> rx_head ni \<longrightarrow>
            rx_ring (fst (snd (receive_packet rid now thr data (ni, lg)))) i = rx_ring ni i)"
    if "(rx_head ni + 1) mod LEVIATHAN_NET_RING_SIZE \<noteq> rx_tail ni"
    using memcpy_payload_prefix[of "min (length data) 128" data 128 "payload (rx_ring ni (rx_head ni))"]
    by (simp add: receive_packet_room[OF that] sizeof_payload_def)
  have general: "stores (fst (receive_all cs (ni, lg)))
          = min (length cs) (LEVIATHAN_NET_RING_SIZE - 1 - depth ni)
      \<and> drops (fst (receive_all cs (ni, lg)))
          = length cs - (LEVIATHAN_NET_RING_SIZE - 1 - depth ni)
      \<and> depth (fst (snd (receive_all cs (ni, lg))))
          = depth ni + min (length cs) (LEVIATHAN_NET_RING_SIZE - 1 - depth ni)"
    if "rx_head ni < LEVIATHAN_NET_RING_SIZE" "rx_tail ni < LEVIATHAN_NET_RING_SIZE"
    using receive_all_counts[OF that, of cs lg] by blast
  have empty: "stores (fst (receive_all cs (ni, lg))) = min (length cs) (LEVIATHAN_NET_RING_SIZE - 1)
      \<and> drops (fst (receive_all cs (ni, lg))) = length cs - (LEVIATHAN_NET_RING_SIZE - 1)
      \<and> depth (fst (snd (receive_all cs (ni, lg)))) = min (length cs) (LEVIATHAN_NET_RING_SIZE - 1)"
    if "rx_head ni = rx_tail ni" "rx_head ni < LEVIATHAN_NET_RING_SIZE"
  proof -
    have d: "depth ni = 0" using that by (simp add: depth_def)
    show ?thesis using general[OF that(2)] that d by simp
  qed
  show ?thesis using sizes full room general empty by blast
qed

theorem receive_packet_drop_on_full_witness:
  "stores (fst (receive_all (replicate 3000 (7, 0, 0, [1, 2, 3])) (fresh_interface, []))) = 2047
   \<and> drops (fst (receive_all (replicate 3000 (7, 0, 0, [1, 2, 3])) (fresh_interface, []))) = 953
   \<and> depth (fst (snd (receive_all (replicate 3000 (7, 0, 0, [1, 2, 3])) (fresh_interface, []))))
       = 2047
   \<and> fst (receive_packet 7 0 0 [1, 2, 3] (fresh_interface, [])) = Stored
   \<and> rx_head (fst (snd (receive_packet 7 0 0 [1, 2, 3] (fresh_interface, [])))) = 1
   \<and> pkt_size (rx_ring (fst (snd (receive_packet 7 0 0 [1, 2, 3] (fresh_interface, [])))) 0) = 3
   \<and> receive_packet 7 0 0 [1, 2, 3] (fresh_interface\<lparr>rx_head := 2047\<rparr>, [])
       = (Dropped, fresh_interface\<lparr>rx_head := 2047\<rparr>,
          [\<lparr>timestamp = 0, level = WARN, tid = 0,
            message = ''[NET] RX Ring Buffer Overflow! Dropping packet.''\<rparr>])"
proof -
  have f: "rx_head fresh_interface = 0" "rx_tail fresh_interface = 0"
    by (simp_all add: fresh_interface_def)
  have sz: "LEVIATHAN_NET_RING_SIZE = 2048" by (simp add: LEVIATHAN_NET_RING_SIZE_def)
  have d: "depth fresh_interface = 0" by (simp add: depth_def f)
  note th = receive_packet_drop_on_full[where ni = fresh_interface and lg = "[]"
      and cs = "replicate 3000 (7, 0, 0, [1, 2, 3])" and rid = 7 and now = 0 and thr = 0
      and data = "[1, 2, 3]"]
  note th2 = receive_packet_drop_on_full[where ni = "fresh_interface\<lparr>rx_head := 2047\<rparr>"
      and lg = "[]" and rid = 7 and now = 0 and thr = 0 and data = "[1, 2, 3]"]
  have A: "stores (fst (receive_all (replicate 3000 (7, 0, 0, [1, 2, 3])) (fresh_interface, []))) = 2047
   \<and> drops (fst (receive_all (replicate 3000 (7, 0, 0, [1, 2, 3])) (fresh_interface, []))) = 953
   \<and> depth (fst (snd (receive_all (replicate 3000 (7, 0, 0, [1, 2, 3])) (fresh_interface, []))))
       = 2047"
    using th by (simp add: f sz d)
  have B: "fst (receive_packet 7 0 0 [1, 2, 3] (fresh_interface, [])) = Stored
   \<and> rx_head (fst (snd (receive_packet 7 0 0 [1, 2, 3] (fresh_interface, [])))) = 1
   \<and> pkt_size (rx_ring (fst (snd (receive_packet 7 0 0 [1, 2, 3] (fresh_interface, [])))) 0) = 3"
    using th by (simp add: f sz numeral_3_eq_3)
  have C: "receive_packet 7 0 0 [1, 2, 3] (fresh_interface\<lparr>rx_head := 2047\<rparr>, [])
       = (Dropped, fresh_interface\<lparr>rx_head := 2047\<rparr>,
          [\<lparr>timestamp = 0, level = WARN, tid = 0,
            message = ''[NET] RX Ring Buffer Overflow! Dropping packet.''\<rparr>])"
    using th2 by (simp add: f sz log_def max_buffer_size_def format_or_diagnostic_def)
  show ?thesis using A B C by blast
qed

subsection \<open>TaskGraph: completing a task releases its dependents\<close>

lemma released_Nil: "released h [] = []"
  by (simp add: released_def)

lemma upt_Suc_shift: "[0..<Suc n] = 0 # map Suc [0..<n]"
  by (simp add: upt_conv_Cons map_Suc_upt del: upt_Suc)

lemma released_Cons:
  "released h (a # ds) =
     (if unsatisfied_deps (h a) = 1 then [a] else [])
     @ released (h(a := (h a)\<lparr>unsatisfied_deps := unsatisfied_deps (h a) - 1,
                               state := (if unsatisfied_deps (h a) = 1 then READY else state (h a))\<rparr>)) ds"
proof -
  let ?h1 = "h(a := (h a)\<lparr>unsatisfied_deps := unsatisfied_deps (h a) - 1,
                               state := (if unsatisfied_deps (h a) = 1 then READY else state (h a))\<rparr>)"
  let ?P = "\<lambda>i. unsatisfied_deps (h ((a # ds) ! i))
                       - of_nat (count_list (take i (a # ds)) ((a # ds) ! i)) = 1"
  let ?Q = "\<lambda>i. unsatisfied_deps (?h1 (ds ! i))
                       - of_nat (count_list (take i ds) (ds ! i)) = 1"
  have PQ: "?P (Suc i) = ?Q i" for i
    by (auto simp: algebra_simps)
  have "released h (a # ds) = map (\<lambda>i. (a # ds) ! i) (filter ?P (0 # map Suc [0..<length ds]))"
    unfolding released_def by (simp only: length_Cons upt_Suc_shift)
  also have "\<dots> = (if ?P 0 then [a] else []) @ map (\<lambda>i. (a # ds) ! i) (filter ?P (map Suc [0..<length ds]))"
    by simp
  also have "map (\<lambda>i. (a # ds) ! i) (filter ?P (map Suc [0..<length ds]))
      = map (\<lambda>i. ds ! i) (filter (\<lambda>i. ?P (Suc i)) [0..<length ds])"
    by (simp add: filter_map comp_def)
  also have "(\<lambda>i. ?P (Suc i)) = ?Q" using PQ by blast
  finally show ?thesis by (simp add: released_def)
qed

lemma release_run:
  assumes "map reg deps = map Some ds"
  shows "release reg deps (h, u) = Inr (after_release h ds, u @ released h ds)"
  using assms
proof (induction deps arbitrary: ds h u)
  case Nil
  then show ?case by (simp add: after_release_def released_Nil)
next
  case (Cons d deps)
  then obtain a ds' where ds: "ds = a # ds'" "reg d = Some a" "map reg deps = map Some ds'"
    by (cases ds) auto
  let ?c = "unsatisfied_deps (h a)"
  let ?h1 = "h(a := (h a)\<lparr>unsatisfied_deps := ?c - 1,
                   state := (if ?c = 1 then READY else state (h a))\<rparr>)"
  have step: "release reg (d # deps) (h, u) = release reg deps (?h1, u @ (if ?c = 1 then [a] else []))"
    using ds(2) by (simp add: Let_def)
  have ih: "release reg deps (?h1, u @ (if ?c = 1 then [a] else []))
      = Inr (after_release ?h1 ds', (u @ (if ?c = 1 then [a] else [])) @ released ?h1 ds')"
    by (rule Cons.IH[OF ds(3)])
  have rel: "released h (a # ds') = (if ?c = 1 then [a] else []) @ released ?h1 ds'"
    by (rule released_Cons)
  have heap_eq: "after_release ?h1 ds' = after_release h (a # ds')"
  proof
    fix x
    show "after_release ?h1 ds' x = after_release h (a # ds') x"
      unfolding after_release_def rel
      by (cases "x = a") (auto simp: algebra_simps)
  qed
  show ?case
    unfolding ds(1) step ih heap_eq rel by simp
qed

lemma released_state_irrelevant:
  "released (h(t := (h t)\<lparr>state := s\<rparr>)) ds = released h ds"
proof -
  have "unsatisfied_deps ((h(t := (h t)\<lparr>state := s\<rparr>)) x) = unsatisfied_deps (h x)" for x
    by simp
  then show ?thesis unfolding released_def by (simp only:)
qed

lemma released_mem:
  "a \<in> set (released h ds) \<longleftrightarrow>
     (\<exists>i<length ds. ds ! i = a
        \<and> unsatisfied_deps (h a) - of_nat (count_list (take i ds) a) = 1)"
  by (auto simp: released_def)

lemma count_list_take_distinct:
  assumes "distinct ds" "i < length ds"
  shows "count_list (take i ds) (ds ! i) = 0"
proof -
  have "ds ! i \<notin> set (take i ds)"
    using assms by (auto simp: in_set_conv_nth distinct_conv_nth)
  then show ?thesis by (simp add: count_list_0_iff)
qed

lemma released_distinct:
  assumes "distinct ds"
  shows "released h ds = filter (\<lambda>a. unsatisfied_deps (h a) = 1) ds"
proof -
  have "filter (\<lambda>i. unsatisfied_deps (h (ds ! i)) - of_nat (count_list (take i ds) (ds ! i)) = 1)
          [0..<length ds]
      = filter (\<lambda>i. unsatisfied_deps (h (ds ! i)) = 1) [0..<length ds]"
    by (rule filter_cong) (auto simp: count_list_take_distinct[OF assms])
  then have "released h ds
      = map (\<lambda>i. ds ! i) (filter ((\<lambda>a. unsatisfied_deps (h a) = 1) \<circ> (\<lambda>i. ds ! i)) [0..<length ds])"
    by (simp add: released_def comp_def)
  also have "\<dots> = filter (\<lambda>a. unsatisfied_deps (h a) = 1) (map (\<lambda>i. ds ! i) [0..<length ds])"
    by (simp only: filter_map)
  finally show ?thesis by (simp add: map_nth)
qed

lemma count_list_distinct_mem:
  assumes "distinct ds" "a \<in> set ds"
  shows "count_list ds a = 1"
  using assms by (induction ds) (auto simp: count_list_0_iff)

text \<open>
  Claim C1. Let \<open>t\<close> be registered under \<open>task_id\<close> and let every id in its
  dependents list be registered, at the addresses \<open>ds\<close> (one entry per edge).
  Then \<^verbatim>\<open>complete_task\<close> returns normally; it decrements the counter of each
  dependent once per edge (modulo \<open>2 ^ 32\<close>); the dependents whose counter is
  brought to zero by one of these decrements, and no others, are put into state
  READY and returned, in list order; every other state and every context that is not
  a dependent is unchanged. Without duplicate edges the returned list is the
  dependents whose counter was 1. The result does not depend on the state of the
  completed task, so it is the same after COMPLETED and after FAILED.
\<close>

theorem complete_task_releases_dependents:
  assumes "tasks g task_id = Some t"
    and "map (tasks g) (dependents (h t)) = map Some ds"
  shows "complete_task task_id g h = Inr (after_release h ds, released h ds)
    \<and> (\<forall>a. unsatisfied_deps (after_release h ds a)
              = unsatisfied_deps (h a) - of_nat (count_list ds a))
    \<and> (\<forall>a. state (after_release h ds a)
              = (if a \<in> set (released h ds) then READY else state (h a)))
    \<and> (\<forall>a. a \<notin> set ds \<longrightarrow> after_release h ds a = h a)
    \<and> (\<forall>a. a \<in> set (released h ds) \<longleftrightarrow>
              (\<exists>i<length ds. ds ! i = a
                 \<and> unsatisfied_deps (h a) - of_nat (count_list (take i ds) a) = 1))
    \<and> (distinct ds \<longrightarrow>
          released h ds = filter (\<lambda>a. unsatisfied_deps (h a) = 1) ds
        \<and> (\<forall>a\<in>set ds. unsatisfied_deps (after_release h ds a) = unsatisfied_deps (h a) - 1))
    \<and> (\<forall>s. complete_task task_id g (h(t := (h t)\<lparr>state := s\<rparr>))
              = Inr (after_release (h(t := (h t)\<lparr>state := s\<rparr>)) ds, released h ds))"
proof -
  have run: "complete_task task_id g h = Inr (after_release h ds, released h ds)"
    using assms release_run[OF assms(2), of h "[]"] by (simp add: complete_task_def)
  have cnt: "\<forall>a. unsatisfied_deps (after_release h ds a)
              = unsatisfied_deps (h a) - of_nat (count_list ds a)"
    by (simp add: after_release_def)
  have st: "\<forall>a. state (after_release h ds a)
              = (if a \<in> set (released h ds) then READY else state (h a))"
    by (simp add: after_release_def)
  have sub: "a \<in> set ds" if "a \<in> set (released h ds)" for a
    using that by (auto simp: released_def)
  have frame: "\<forall>a. a \<notin> set ds \<longrightarrow> after_release h ds a = h a"
    using sub by (auto simp: after_release_def count_list_0_iff)
  have dist: "released h ds = filter (\<lambda>a. unsatisfied_deps (h a) = 1) ds
        \<and> (\<forall>a\<in>set ds. unsatisfied_deps (after_release h ds a) = unsatisfied_deps (h a) - 1)"
    if "distinct ds"
    using released_distinct[OF that] count_list_distinct_mem[OF that]
    by (simp add: after_release_def)
  have any_state: "complete_task task_id g (h(t := (h t)\<lparr>state := s\<rparr>))
              = Inr (after_release (h(t := (h t)\<lparr>state := s\<rparr>)) ds, released h ds)" for s
  proof -
    let ?h = "h(t := (h t)\<lparr>state := s\<rparr>)"
    have "map (tasks g) (dependents (?h t)) = map Some ds" using assms(2) by simp
    from release_run[OF this, of ?h "[]"] show ?thesis
      using assms(1) by (simp add: complete_task_def released_state_irrelevant)
  qed
  show ?thesis
    using run cnt st frame released_mem[of _ h ds] dist any_state by blast
qed

lemma edge_heap_facts:
  "dependents (edge_heap 11) = [12, 13, 13, 14]"
  "unsatisfied_deps (edge_heap 12) = 1" "unsatisfied_deps (edge_heap 13) = 2"
  "unsatisfied_deps (edge_heap 14) = 2" "state (edge_heap 14) = BLOCKED"
  by (simp_all add: edge_heap_def add_dependency_def demo_graph_def demo_heap_def TaskContext_ctor_def)

theorem complete_task_releases_dependents_witness:
  "tasks demo_graph 11 = Some 11
   \<and> map (tasks demo_graph) (dependents (edge_heap 11)) = map Some [12, 13, 13, 14]
   \<and> complete_task 11 demo_graph edge_heap = Inr (after_release edge_heap [12, 13, 13, 14], [12, 13])
   \<and> unsatisfied_deps (after_release edge_heap [12, 13, 13, 14] 12) = 0
   \<and> unsatisfied_deps (after_release edge_heap [12, 13, 13, 14] 13) = 0
   \<and> unsatisfied_deps (after_release edge_heap [12, 13, 13, 14] 14) = 1
   \<and> state (after_release edge_heap [12, 13, 13, 14] 12) = READY
   \<and> state (after_release edge_heap [12, 13, 13, 14] 13) = READY
   \<and> state (after_release edge_heap [12, 13, 13, 14] 14) = BLOCKED"
proof -
  have a1: "tasks demo_graph 11 = Some 11" by (simp add: demo_graph_def)
  have a2: "map (tasks demo_graph) (dependents (edge_heap 11)) = map Some [12, 13, 13, 14]"
    by (simp only: edge_heap_facts) (simp add: demo_graph_def)
  have r: "released edge_heap [12, 13, 13, 14] = [12, 13]"
    by (simp add: released_Cons released_Nil edge_heap_facts)
  note th = complete_task_releases_dependents[where g = demo_graph and task_id = 11 and t = 11
      and h = edge_heap and ds = "[12, 13, 13, 14]", OF a1 a2]
  have c: "complete_task 11 demo_graph edge_heap = Inr (after_release edge_heap [12, 13, 13, 14], [12, 13])"
    using th r by simp
  show ?thesis
    using a1 a2 c by (simp add: after_release_def r edge_heap_facts)
qed

subsection \<open>ExecutionEngine: one turn of a worker\<close>

lemma worker_run_task_exception:
  assumes "work (h task) = Throws_exception what"
  shows "worker_run_task t0 t1 now thr task (h, lg) =
     Inr (finished FAILED t0 t1 task h,
          log now thr ERROR
            (Some (''Task '' @ to_decimal (unat (tc_id (h task))) @ '' Failed: '' @ what)) lg)"
  using assms by (simp add: worker_run_task_def try_work_def finished_def)

lemma worker_run_task_returns:
  assumes "work (h task) = Returns"
  shows "worker_run_task t0 t1 now thr task (h, lg) = Inr (finished COMPLETED t0 t1 task h, lg)"
  using assms by (simp add: worker_run_task_def try_work_def finished_def)

lemma worker_run_task_other:
  assumes "work (h task) = Throws_other"
  shows "worker_run_task t0 t1 now thr task (h, lg) = Inl Std_terminate"
  using assms by (simp add: worker_run_task_def try_work_def)

lemma last_log:
  "last (log now thr lvl (Some m) lg) = \<lparr>timestamp = now, level = lvl, tid = thr, message = m\<rparr>"
  by (simp add: log_def Let_def format_or_diagnostic_def)

lemma released_finished: "released (finished st t0 t1 task h) ds = released h ds"
proof -
  have "unsatisfied_deps (finished st t0 t1 task h x) = unsatisfied_deps (h x)" for x
    by (simp add: finished_def)
  then show ?thesis unfolding released_def by (simp only:)
qed

lemma worker_iteration_finished:
  assumes "get_next (scheduler k) = (Some task, s1)"
    and "worker_run_task t0 t1 now thr task (heap k, logger k)
           = Inr (finished st t0 t1 task (heap k), lg1)"
    and "tasks (graph k) (tc_id (heap k task)) = Some t"
    and "map (tasks (graph k)) (dependents (heap k t)) = map Some ds"
  shows "worker_iteration t0 t1 now thr k =
     Inr (k\<lparr>heap := after_release (finished st t0 t1 task (heap k)) ds,
            scheduler := submit_all (after_release (finished st t0 t1 task (heap k)) ds)
                           (released (heap k) ds) s1,
            logger := lg1\<rparr>)"
proof -
  let ?h1 = "finished st t0 t1 task (heap k)"
  have i: "tc_id (?h1 task) = tc_id (heap k task)" by (simp add: finished_def)
  have d: "map (tasks (graph k)) (dependents (?h1 t)) = map Some ds"
    using assms(4) by (auto simp: finished_def)
  have "complete_task (tc_id (?h1 task)) (graph k) ?h1 = Inr (after_release ?h1 ds, released ?h1 ds)"
    using release_run[OF d, of ?h1 "[]"] assms(3) i by (simp add: complete_task_def)
  then show ?thesis
    using assms(1,2) by (simp add: worker_iteration_def released_finished)
qed

text \<open>
  Claim C5, as the source has it. Let the worker take \<open>task\<close> from the scheduler,
  let its id be registered (at \<open>t\<close>) and the dependents of that context be
  registered at the addresses \<open>ds\<close>. If the work unit throws an exception derived
  from \<^verbatim>\<open>std::exception\<close>, the worker catches it, sets the state to FAILED and
  logs \<^verbatim>\<open>Task <id> Failed: <what>\<close> at ERROR; if the work unit returns, it sets
  the state to COMPLETED and logs nothing. In both cases it then adds \<open>t1 - t0\<close> to
  the task's cpu-time counter, calls \<^verbatim>\<open>complete_task\<close>, and appends the released
  dependents, and nothing else, to the queues; the task itself is not submitted again
  by the worker.
\<close>

theorem worker_contains_std_exception:
  assumes "get_next (scheduler k) = (Some task, s1)"
    and "tasks (graph k) (tc_id (heap k task)) = Some t"
    and "map (tasks (graph k)) (dependents (heap k t)) = map Some ds"
  shows
   "(work (heap k task) = Throws_exception what \<longrightarrow>
       worker_run_task t0 t1 now thr task (heap k, logger k) =
         Inr (finished FAILED t0 t1 task (heap k),
              log now thr ERROR
                (Some (''Task '' @ to_decimal (unat (tc_id (heap k task))) @ '' Failed: '' @ what))
                (logger k))
     \<and> worker_iteration t0 t1 now thr k =
         Inr (k\<lparr>heap := after_release (finished FAILED t0 t1 task (heap k)) ds,
                scheduler := submit_all (after_release (finished FAILED t0 t1 task (heap k)) ds)
                               (released (heap k) ds) s1,
                logger := log now thr ERROR
                  (Some (''Task '' @ to_decimal (unat (tc_id (heap k task))) @ '' Failed: '' @ what))
                  (logger k)\<rparr>))
  \<and> (work (heap k task) = Returns \<longrightarrow>
       worker_run_task t0 t1 now thr task (heap k, logger k) =
         Inr (finished COMPLETED t0 t1 task (heap k), logger k)
     \<and> worker_iteration t0 t1 now thr k =
         Inr (k\<lparr>heap := after_release (finished COMPLETED t0 t1 task (heap k)) ds,
                scheduler := submit_all (after_release (finished COMPLETED t0 t1 task (heap k)) ds)
                               (released (heap k) ds) s1,
                logger := logger k\<rparr>))
  \<and> state (finished st t0 t1 task (heap k) task) = st
  \<and> cpu_time_ns (finished st t0 t1 task (heap k) task)
      = cpu_time_ns (heap k task) + word_of_int (t1 - t0)
  \<and> (\<forall>a. a \<noteq> task \<longrightarrow> finished st t0 t1 task (heap k) a = heap k a)
  \<and> last (log now thr ERROR (Some m) (logger k))
      = \<lparr>timestamp = now, level = ERROR, tid = thr, message = m\<rparr>
  \<and> (\<forall>h' rs i. queues (submit_all h' rs s1) i = queues s1 i @ band h' i rs)"
proof -
  have failed: "worker_run_task t0 t1 now thr task (heap k, logger k) =
         Inr (finished FAILED t0 t1 task (heap k),
              log now thr ERROR
                (Some (''Task '' @ to_decimal (unat (tc_id (heap k task))) @ '' Failed: '' @ what))
                (logger k))
     \<and> worker_iteration t0 t1 now thr k =
         Inr (k\<lparr>heap := after_release (finished FAILED t0 t1 task (heap k)) ds,
                scheduler := submit_all (after_release (finished FAILED t0 t1 task (heap k)) ds)
                               (released (heap k) ds) s1,
                logger := log now thr ERROR
                  (Some (''Task '' @ to_decimal (unat (tc_id (heap k task))) @ '' Failed: '' @ what))
                  (logger k)\<rparr>)"
    if w: "work (heap k task) = Throws_exception what"
  proof -
    note r = worker_run_task_exception[where h = "heap k" and task = task and lg = "logger k"
        and ?t0.0 = t0 and ?t1.0 = t1 and now = now and thr = thr, OF w]
    show ?thesis
      using r worker_iteration_finished[OF assms(1) r assms(2,3)] by simp
  qed
  have completed: "worker_run_task t0 t1 now thr task (heap k, logger k) =
         Inr (finished COMPLETED t0 t1 task (heap k), logger k)
     \<and> worker_iteration t0 t1 now thr k =
         Inr (k\<lparr>heap := after_release (finished COMPLETED t0 t1 task (heap k)) ds,
                scheduler := submit_all (after_release (finished COMPLETED t0 t1 task (heap k)) ds)
                               (released (heap k) ds) s1,
                logger := logger k\<rparr>)"
    if w: "work (heap k task) = Returns"
  proof -
    note r = worker_run_task_returns[where h = "heap k" and task = task and lg = "logger k"
        and ?t0.0 = t0 and ?t1.0 = t1 and now = now and thr = thr, OF w]
    show ?thesis
      using r worker_iteration_finished[OF assms(1) r assms(2,3)] by simp
  qed
  have fin: "state (finished st t0 t1 task (heap k) task) = st
    \<and> cpu_time_ns (finished st t0 t1 task (heap k) task)
        = cpu_time_ns (heap k task) + word_of_int (t1 - t0)
    \<and> (\<forall>a. a \<noteq> task \<longrightarrow> finished st t0 t1 task (heap k) a = heap k a)"
    by (simp add: finished_def)
  have q: "\<forall>h' rs i. queues (submit_all h' rs s1) i = queues s1 i @ band h' i rs"
    by (simp add: queues_submit_all)
  show ?thesis
    using failed completed fin q last_log[of now thr ERROR m "logger k"] by blast
qed

lemma worker_demo_facts:
  "get_next (scheduler (worker_demo w)) = (Some 11, \<lparr>queues = (\<lambda>i. [])\<rparr>)"
  "tasks (graph (worker_demo w)) (tc_id (heap (worker_demo w) 11)) = Some 11"
  "map (tasks (graph (worker_demo w))) (dependents (heap (worker_demo w) 11)) = map Some [12, 13, 13, 14]"
  "work (heap (worker_demo w) 11) = w"
  "logger (worker_demo w) = []"
  "cpu_time_ns (heap (worker_demo w) 11) = 0"
proof -
  have "(\<lambda>i. if i = 2 then [11] else [])(2 := []) = (\<lambda>i. ([] :: addr list))" by auto
  then show "get_next (scheduler (worker_demo w)) = (Some 11, \<lparr>queues = (\<lambda>i. [])\<rparr>)"
    by (simp add: worker_demo_def get_next_def)
  have id1: "tc_id (edge_heap 11) = 11"
    by (simp add: edge_heap_def add_dependency_def demo_graph_def demo_heap_def TaskContext_ctor_def)
  show "tasks (graph (worker_demo w)) (tc_id (heap (worker_demo w) 11)) = Some 11"
    using id1 by (simp add: worker_demo_def demo_graph_def)
  have deps: "dependents (edge_heap 11) = [12, 13, 13, 14]"
    by (simp add: edge_heap_def add_dependency_def demo_graph_def demo_heap_def TaskContext_ctor_def)
  show "map (tasks (graph (worker_demo w))) (dependents (heap (worker_demo w) 11)) = map Some [12, 13, 13, 14]"
    using deps by (simp add: worker_demo_def demo_graph_def)
  show "work (heap (worker_demo w) 11) = w" by (simp add: worker_demo_def)
  show "logger (worker_demo w) = []" by (simp add: worker_demo_def)
  show "cpu_time_ns (heap (worker_demo w) 11) = 0"
    by (simp add: worker_demo_def edge_heap_def add_dependency_def demo_graph_def demo_heap_def TaskContext_ctor_def)
qed

lemma edge_heap_facts2:
  "unsatisfied_deps (edge_heap 12) = 1" "unsatisfied_deps (edge_heap 13) = 2"
  "unsatisfied_deps (edge_heap 14) = 2" "priority (edge_heap 12) = NORMAL"
  "priority (edge_heap 13) = NORMAL"
  by (simp_all add: edge_heap_def add_dependency_def demo_graph_def demo_heap_def TaskContext_ctor_def)

theorem worker_contains_std_exception_witness:
  "get_next (scheduler (worker_demo (Throws_exception ''boom''))) = (Some 11, \<lparr>queues = (\<lambda>i. [])\<rparr>)
   \<and> \<not> isl (worker_iteration 100 105 200 7 (worker_demo (Throws_exception ''boom'')))
   \<and> state (heap (projr (worker_iteration 100 105 200 7 (worker_demo (Throws_exception ''boom'')))) 11)
       = FAILED
   \<and> cpu_time_ns (heap (projr (worker_iteration 100 105 200 7
         (worker_demo (Throws_exception ''boom'')))) 11) = 5
   \<and> logger (projr (worker_iteration 100 105 200 7 (worker_demo (Throws_exception ''boom''))))
       = [\<lparr>timestamp = 200, level = ERROR, tid = 7, message = ''Task 11 Failed: boom''\<rparr>]
   \<and> queues (scheduler (projr (worker_iteration 100 105 200 7
         (worker_demo (Throws_exception ''boom''))))) 2 = [12, 13]
   \<and> state (heap (projr (worker_iteration 100 105 200 7 (worker_demo (Throws_exception ''boom'')))) 12)
       = READY"
proof -
  let ?k = "worker_demo (Throws_exception ''boom'')"
  let ?h1 = "finished FAILED 100 105 11 (heap ?k)"
  note th = worker_contains_std_exception[where k = ?k and task = 11 and t = 11
      and ds = "[12, 13, 13, 14]" and ?s1.0 = "\<lparr>queues = (\<lambda>i. [])\<rparr>" and what = "''boom''"
      and ?t0.0 = 100 and ?t1.0 = 105 and now = 200 and thr = 7 and st = FAILED,
      OF worker_demo_facts(1) worker_demo_facts(2) worker_demo_facts(3)]
  have w: "work (heap ?k 11) = Throws_exception ''boom''" by (rule worker_demo_facts(4))
  have run: "worker_iteration 100 105 200 7 ?k =
      Inr (?k\<lparr>heap := after_release ?h1 [12, 13, 13, 14],
              scheduler := submit_all (after_release ?h1 [12, 13, 13, 14])
                             (released (heap ?k) [12, 13, 13, 14]) \<lparr>queues = (\<lambda>i. [])\<rparr>,
              logger := log 200 7 ERROR
                (Some (''Task '' @ to_decimal (unat (tc_id (heap ?k 11))) @ '' Failed: '' @ ''boom''))
                (logger ?k)\<rparr>)"
    using th w by blast
  have id1: "tc_id (heap ?k 11) = 11"
    by (simp add: worker_demo_def edge_heap_def add_dependency_def demo_graph_def demo_heap_def
        TaskContext_ctor_def)
  have cnt: "unsatisfied_deps (heap ?k 12) = 1" "unsatisfied_deps (heap ?k 13) = 2"
    "unsatisfied_deps (heap ?k 14) = 2"
    by (simp_all add: worker_demo_def edge_heap_facts2)
  have r: "released (heap ?k) [12, 13, 13, 14] = [12, 13]"
    by (simp add: released_Cons released_Nil cnt)
  have pr: "priority (after_release ?h1 [12, 13, 13, 14] 12) = NORMAL"
    "priority (after_release ?h1 [12, 13, 13, 14] 13) = NORMAL"
    by (simp_all add: after_release_def finished_def worker_demo_def edge_heap_facts2)
  have rf: "released ?h1 [12, 13, 13, 14] = [12, 13]"
    using r by (simp add: released_finished)
  have lg: "log 200 7 ERROR (Some (''Task '' @ to_decimal (unat (tc_id (heap ?k 11))) @ '' Failed: '' @ ''boom''))
                (logger ?k) = [\<lparr>timestamp = 200, level = ERROR, tid = 7, message = ''Task 11 Failed: boom''\<rparr>]"
    using id1 by (simp add: worker_demo_facts(5) log_def max_buffer_size_def
        format_or_diagnostic_def digit_char_def)
  have st1: "state (after_release ?h1 [12, 13, 13, 14] 11) = FAILED"
    unfolding after_release_def rf by (simp add: finished_def)
  have st2: "state (after_release ?h1 [12, 13, 13, 14] 12) = READY"
    unfolding after_release_def rf by simp
  have cpu: "cpu_time_ns (after_release ?h1 [12, 13, 13, 14] 11) = 5"
    using worker_demo_facts(6)[of "Throws_exception ''boom''"]
    by (simp add: after_release_def finished_def)
  have q: "queues (submit_all (after_release ?h1 [12, 13, 13, 14]) [12, 13] \<lparr>queues = (\<lambda>i. [])\<rparr>) 2 = [12, 13]"
    by (simp add: submit_def pr)
  show ?thesis
    unfolding run r lg using worker_demo_facts(1)[of "Throws_exception ''boom''"] st1 st2 cpu q
    by simp
qed

text \<open>
  Claim C5 as stated fails for a failure that is not a \<^verbatim>\<open>std::exception\<close>: the
  handler does not match, the exception leaves the worker thread and the process is
  terminated. The task is never marked FAILED, nothing is logged and no dependent is
  released.
\<close>

theorem worker_other_throw_counterexample:
  "work (heap (worker_demo Throws_other) 11) = Throws_other
   \<and> get_next (scheduler (worker_demo Throws_other)) = (Some 11, \<lparr>queues = (\<lambda>i. [])\<rparr>)
   \<and> worker_iteration 100 105 200 7 (worker_demo Throws_other) = Inl Std_terminate"
proof -
  have "worker_run_task 100 105 200 7 11 (heap (worker_demo Throws_other), logger (worker_demo Throws_other))
      = Inl Std_terminate"
    by (rule worker_run_task_other[where h = "heap (worker_demo Throws_other)" and task = 11,
          OF worker_demo_facts(4)])
  then show ?thesis
    using worker_demo_facts(1)[of Throws_other] worker_demo_facts(4)[of Throws_other]
    by (simp add: worker_iteration_def)
qed

subsection \<open>LeviathanKernel: task submission\<close>





lemma ids_below_counter_boot:
  "ids_below_counter \<lparr>heap = h, graph = \<lparr>tasks = (\<lambda>i. None)\<rparr>, scheduler = s, id_gen = 1, logger = lg\<rparr>"
  by (simp add: ids_below_counter_def)

lemma ids_below_counter_worker_iteration:
  assumes "ids_below_counter k" and "worker_iteration t0 t1 now thr k = Inr k'"
  shows "ids_below_counter k'"
proof -
  have "graph k' = graph k \<and> id_gen k' = id_gen k"
    using assms(2)
    by (auto simp: worker_iteration_def split: prod.splits option.splits sum.splits)
  then show ?thesis using assms(1) by (simp add: ids_below_counter_def)
qed




subsection \<open>The registry invariant holds along every run\<close>

text \<open>
  The theorems on \<^verbatim>\<open>complete_task\<close> and on the worker assume that the dependents
  of the completed task are registered. This is the invariant \<open>edges_registered\<close>:
  it holds for the empty registry, every operation of the graph, the facade and the
  worker preserves it, and under it neither \<^verbatim>\<open>complete_task\<close> nor a worker turn
  dereferences a null pointer.
\<close>

lemma edges_registered_empty: "edges_registered \<lparr>tasks = (\<lambda>i. None)\<rparr> h"
  by (simp add: edges_registered_def)

lemma edges_registered_addresses:
  assumes "edges_registered g h" "tasks g i = Some t"
  shows "map (tasks g) (dependents (h t))
           = map Some (map (\<lambda>d. the (tasks g d)) (dependents (h t)))"
proof -
  have "tasks g d = Some (the (tasks g d))" if "d \<in> set (dependents (h t))" for d
    using assms that by (auto simp: edges_registered_def)
  then show ?thesis by (simp add: comp_def)
qed

lemma edges_registered_add_task:
  assumes "edges_registered g h" "dependents (h t) = []"
  shows "edges_registered (add_task h t g) h"
  using assms by (auto simp: edges_registered_def add_task_def split: if_splits)

lemma dependents_add_dependency:
  "set (dependents (add_dependency parent child g h a)) \<subseteq> set (dependents (h a)) \<union> {child}"
  by (auto simp: add_dependency_def Let_def split: option.splits if_splits)

lemma add_dependency_child_registered:
  assumes "d \<in> set (dependents (add_dependency parent child g h a))" "d \<notin> set (dependents (h a))"
  shows "d = child \<and> tasks g child \<noteq> None"
  using assms by (auto simp: add_dependency_def Let_def split: option.splits if_splits)

lemma edges_registered_add_dependency:
  assumes "edges_registered g h"
  shows "edges_registered g (add_dependency parent child g h)"
  unfolding edges_registered_def
proof (intro allI impI)
  fix i a d
  assume a: "tasks g i = Some a \<and> d \<in> set (dependents (add_dependency parent child g h a))"
  show "tasks g d \<noteq> None"
  proof (cases "d \<in> set (dependents (h a))")
    case True
    then show ?thesis using assms a by (auto simp: edges_registered_def)
  next
    case False
    then show ?thesis using add_dependency_child_registered[of d parent child g h a] a by auto
  qed
qed

lemma edges_registered_after_release:
  assumes "edges_registered g h"
  shows "edges_registered g (after_release h ds)"
  using assms by (simp add: edges_registered_def after_release_def)

lemma edges_registered_finished:
  assumes "edges_registered g h"
  shows "edges_registered g (finished st t0 t1 task h)"
  using assms by (auto simp: edges_registered_def finished_def)

lemma complete_task_no_fault:
  assumes "edges_registered g h"
  shows "\<exists>h' unlocked. complete_task i g h = Inr (h', unlocked) \<and> edges_registered g h'"
proof (cases "tasks g i")
  case None
  then show ?thesis using assms by (simp add: complete_task_def)
next
  case (Some t)
  let ?ds = "map (\<lambda>d. the (tasks g d)) (dependents (h t))"
  have "complete_task i g h = Inr (after_release h ?ds, released h ?ds)"
    using release_run[OF edges_registered_addresses[OF assms Some], of h "[]"] Some
    by (simp add: complete_task_def)
  then show ?thesis using edges_registered_after_release[OF assms] by simp
qed

lemma edges_registered_submit_task:
  assumes "edges_registered (graph k) (heap k)"
  shows "edges_registered (graph (submit_task a now p w k)) (heap (submit_task a now p w k))"
  using assms
  by (auto simp: edges_registered_def submit_task_def Let_def add_task_def TaskContext_ctor_def
      split: if_splits)

lemma worker_iteration_no_null_dereference:
  assumes "edges_registered (graph k) (heap k)"
  shows "worker_iteration t0 t1 now thr k \<noteq> Inl Null_dereference"
proof (cases "get_next (scheduler k)")
  case (Pair r s1)
  show ?thesis
  proof (cases r)
    case None
    then show ?thesis using Pair by (simp add: worker_iteration_def)
  next
    case (Some task)
    show ?thesis
    proof (cases "work (heap k task)")
      case Returns
      let ?h1 = "finished COMPLETED t0 t1 task (heap k)"
      obtain h' u where "complete_task (tc_id (?h1 task)) (graph k) ?h1 = Inr (h', u)"
        using complete_task_no_fault[OF edges_registered_finished[OF assms]] by blast
      then show ?thesis
        using Pair Some
          worker_run_task_returns[where h = "heap k" and task = task, OF Returns,
            of t0 t1 now thr "logger k"]
        by (simp add: worker_iteration_def)
    next
      case (Throws_exception what)
      let ?h1 = "finished FAILED t0 t1 task (heap k)"
      obtain h' u where "complete_task (tc_id (?h1 task)) (graph k) ?h1 = Inr (h', u)"
        using complete_task_no_fault[OF edges_registered_finished[OF assms]] by blast
      then show ?thesis
        using Pair Some
          worker_run_task_exception[where h = "heap k" and task = task, OF Throws_exception,
            of t0 t1 now thr "logger k"]
        by (simp add: worker_iteration_def)
    next
      case Throws_other
      then show ?thesis
        using Pair Some
          worker_run_task_other[where h = "heap k" and task = task, OF Throws_other,
            of t0 t1 now thr "logger k"]
        by (simp add: worker_iteration_def)
    qed
  qed
qed

lemma edges_registered_worker_iteration:
  assumes "edges_registered (graph k) (heap k)"
    and "worker_iteration t0 t1 now thr k = Inr k'"
  shows "edges_registered (graph k') (heap k')"
proof (cases "get_next (scheduler k)")
  case (Pair r s1)
  show ?thesis
  proof (cases r)
    case None
    then show ?thesis using Pair assms by (auto simp: worker_iteration_def)
  next
    case (Some task)
    have step: "edges_registered (graph k') (heap k')"
      if run: "worker_run_task t0 t1 now thr task (heap k, logger k)
                 = Inr (finished st t0 t1 task (heap k), lg1)"
      for st lg1
    proof -
      let ?h1 = "finished st t0 t1 task (heap k)"
      obtain h' u where c: "complete_task (tc_id (?h1 task)) (graph k) ?h1 = Inr (h', u)"
          "edges_registered (graph k) h'"
        using complete_task_no_fault[OF edges_registered_finished[OF assms(1)]] by blast
      have "k' = k\<lparr>heap := h', scheduler := submit_all h' u s1, logger := lg1\<rparr>"
        using assms(2) Pair Some run c(1) by (simp add: worker_iteration_def)
      then show ?thesis using c(2) by simp
    qed
    show ?thesis
    proof (cases "work (heap k task)")
      case Returns
      show ?thesis
        by (rule step[OF worker_run_task_returns[where h = "heap k" and task = task, OF Returns]])
    next
      case (Throws_exception what)
      show ?thesis
        by (rule step[OF worker_run_task_exception[where h = "heap k" and task = task,
                OF Throws_exception]])
    next
      case Throws_other
      then show ?thesis
        using Pair Some assms(2)
          worker_run_task_other[where h = "heap k" and task = task, OF Throws_other,
            of t0 t1 now thr "logger k"]
        by (simp add: worker_iteration_def)
    qed
  qed
qed

end
